theory Spec2Isabelle
  imports Complex_Main "HOL-Library.Word"
begin

section \<open>Samples, matrices and faults\<close>

text \<open>
  The file \<^verbatim>\<open>denoise_opencv.cpp\<close> exports four C entry points that wrap OpenCV:
  \<^verbatim>\<open>denoise_nlm_opencv\<close>, \<^verbatim>\<open>denoise_quattro_highres_opencv\<close>,
  \<^verbatim>\<open>bicubic_upscale_opencv\<close> and \<^verbatim>\<open>inpaint_bad_pixels_opencv\<close>.
  The caller's storage is a flat array of 16-bit samples (8-bit for the defect mask); a
  \<^verbatim>\<open>cv::Mat\<close> is a matrix of rows, columns and channels of one sample depth. The model
  keeps a matrix as its logical content, row by row without padding, each sample as the
  integer it denotes.
\<close>

type_synonym u8 = "8 word"
type_synonym u16 = "16 word"

datatype depth = CV_8U | CV_16U | CV_16S

datatype norm_type = NORM_INF | NORM_L1 | NORM_L2

datatype interpolation = INTER_NEAREST | INTER_LINEAR | INTER_CUBIC | INTER_AREA

datatype inpaint_flag = INPAINT_NS | INPAINT_TELEA

text \<open>
  \<open>CvException\<close>: an OpenCV call threw. \<open>Undefined\<close>: the C++ code left defined
  behaviour (an access outside a buffer, a signed overflow of an \<^verbatim>\<open>int\<close> offset, or
  samples read through a pointer of another width).
\<close>

datatype fault = CvException | Undefined

record mat =
  m_rows :: nat
  m_cols :: nat
  m_chans :: nat
  m_depth :: depth
  m_data :: "int list"

definition wf_mat :: "mat \<Rightarrow> bool" where
  "wf_mat m \<longleftrightarrow> length (m_data m) = m_rows m * m_cols m * m_chans m"

definition same_shape :: "mat \<Rightarrow> mat \<Rightarrow> bool" where
  "same_shape a b \<longleftrightarrow>
     m_rows a = m_rows b \<and> m_cols a = m_cols b \<and> m_chans a = m_chans b \<and> m_depth a = m_depth b"

text \<open>The sample of pixel \<open>p\<close> (counted row by row) in channel \<open>c\<close>.\<close>

definition sample :: "mat \<Rightarrow> nat \<Rightarrow> nat \<Rightarrow> int" where
  "sample m p c = m_data m ! (p * m_chans m + c)"

text \<open>\<^verbatim>\<open>m.size()\<close> is a \<^verbatim>\<open>cv::Size\<close>: width first, then height.\<close>

definition mat_size :: "mat \<Rightarrow> nat \<times> nat" where
  "mat_size m = (m_cols m, m_rows m)"

text \<open>
  \<^verbatim>\<open>cv::Mat V(size, type)\<close> allocates without initialising; the model fills it with
  zeros.
\<close>

definition mat_new :: "nat \<times> nat \<Rightarrow> depth \<Rightarrow> nat \<Rightarrow> mat" where
  "mat_new sz d ch =
     \<lparr>m_rows = snd sz, m_cols = fst sz, m_chans = ch, m_depth = d,
      m_data = replicate (snd sz * fst sz * ch) 0\<rparr>"

subsection \<open>Strided views\<close>

definition INT_MAX :: nat where
  "INT_MAX = 2147483647"

text \<open>A product computed in C \<^verbatim>\<open>int\<close>: signed overflow is undefined.\<close>

definition int_mul :: "nat \<Rightarrow> nat \<Rightarrow> fault + nat" where
  "int_mul a b = (if a * b \<le> INT_MAX then Inr (a * b) else Inl Undefined)"

text \<open>
  A view of \<open>rows\<close> rows of \<open>width\<close> samples, \<open>stride\<close> samples apart, lies inside a
  buffer of \<open>len\<close> samples when its last row does.
\<close>

definition view_ok :: "nat \<Rightarrow> nat \<Rightarrow> nat \<Rightarrow> nat \<Rightarrow> bool" where
  "view_ok len rows width stride \<longleftrightarrow> rows = 0 \<or> (rows - 1) * stride + width \<le> len"

text \<open>
  \<^verbatim>\<open>cv::Mat img(rows, cols, type, data, step)\<close> describes the caller's buffer without
  copying it. The OpenCV call that receives the view reads sample \<open>(y, x, c)\<close> at
  \<open>y * stride + x * channels + c\<close>; the model gathers these samples, and a view that
  reaches past the buffer is \<open>Undefined\<close>.
\<close>

definition view_content :: "depth \<Rightarrow> 'a::len word list \<Rightarrow> nat \<Rightarrow> nat \<Rightarrow> nat \<Rightarrow> nat \<Rightarrow> mat" where
  "view_content d buf rows cols channels stride =
     \<lparr>m_rows = rows, m_cols = cols, m_chans = channels, m_depth = d,
      m_data = concat (map (\<lambda>y. map uint (take (cols * channels) (drop (y * stride) buf))) [0..<rows])\<rparr>"

definition mat_view :: "depth \<Rightarrow> 'a::len word list \<Rightarrow> nat \<Rightarrow> nat \<Rightarrow> nat \<Rightarrow> nat \<Rightarrow> fault + mat" where
  "mat_view d buf rows cols channels stride =
     (if view_ok (length buf) rows (cols * channels) stride
      then Inr (view_content d buf rows cols channels stride)
      else Inl Undefined)"

text \<open>
  \<^verbatim>\<open>memcpy(dst + doff, src + soff, n * sizeof(uint16_t))\<close>, with the source samples taken
  from a matrix.
\<close>

definition memcpy_row :: "u16 list \<Rightarrow> nat \<Rightarrow> int list \<Rightarrow> nat \<Rightarrow> nat \<Rightarrow> fault + u16 list" where
  "memcpy_row dst doff src soff n =
     (if doff + n \<le> length dst \<and> soff + n \<le> length src
      then Inr (take doff dst @ map word_of_int (take n (drop soff src)) @ drop (doff + n) dst)
      else Inl Undefined)"

text \<open>
  The write-back loop
  \<^verbatim>\<open>for (y = 0; y < rows; y++) memcpy(data + off(y), out.ptr<uint16_t>(y), n * 2)\<close>.
  \<open>out\<close> is a matrix OpenCV allocated, so its row \<open>y\<close> starts at
  \<open>y * (cols * channels)\<close> of its own shape. \<open>off\<close> and \<open>n\<close> are the offset and the
  length as the code computes them, each possibly overflowing.
\<close>

fun copy_rows :: "u16 list \<Rightarrow> (nat \<Rightarrow> fault + nat) \<Rightarrow> mat \<Rightarrow> fault + nat \<Rightarrow> nat list \<Rightarrow> fault + u16 list" where
  "copy_rows data off out n [] = Inr data"
| "copy_rows data off out n (y # ys) =
     (case off y of
        Inl e \<Rightarrow> Inl e
      | Inr doff \<Rightarrow>
          (case n of
             Inl e \<Rightarrow> Inl e
           | Inr len \<Rightarrow>
               (case memcpy_row data doff (m_data out) (y * (m_cols out * m_chans out)) len of
                  Inl e \<Rightarrow> Inl e
                | Inr data' \<Rightarrow> copy_rows data' off out n ys)))"

text \<open>
  \<^verbatim>\<open>out.ptr<uint16_t>(y)\<close> reads the matrix as 16-bit samples; on an 8-bit matrix it
  would pair bytes up, which the model does not follow.
\<close>

definition copy_back :: "u16 list \<Rightarrow> nat \<Rightarrow> (nat \<Rightarrow> fault + nat) \<Rightarrow> fault + nat \<Rightarrow> mat \<Rightarrow> fault + u16 list" where
  "copy_back data rows off n out =
     (if m_depth out = CV_8U then Inl Undefined else copy_rows data off out n [0..<rows])"

section \<open>OpenCV calls\<close>

text \<open>
  Every \<^verbatim>\<open>cv::\<close> function the file calls is an event, recorded with its arguments in
  the order of the calls.
\<close>

datatype call =
    FastNlMeansDenoising mat "real list" int int norm_type
  | MixChannels mat mat nat nat
  | MedianBlur mat int
  | Resize mat "nat \<times> nat" real real interpolation
  | Subtract mat mat depth
  | Inpaint mat mat int inpaint_flag
  | Split mat
  | Merge "mat list"

type_synonym 'a cv = "call list \<times> (fault + 'a)"

definition cv_ret :: "fault + 'a \<Rightarrow> 'a cv" where
  "cv_ret r = ([], r)"

definition cv_bind :: "'a cv \<Rightarrow> ('a \<Rightarrow> 'b cv) \<Rightarrow> 'b cv" where
  "cv_bind m f =
     (case m of
        (l, Inl e) \<Rightarrow> (l, Inl e)
      | (l, Inr x) \<Rightarrow> (case f x of (l', r) \<Rightarrow> (l @ l', r)))"

definition cv_call :: "call \<Rightarrow> 'a option \<Rightarrow> 'a cv" where
  "cv_call c r = ([c], case r of None \<Rightarrow> Inl CvException | Some x \<Rightarrow> Inr x)"

subsection \<open>The numeric kernels\<close>

text \<open>
  The patch denoiser, the median filter, the resampler and the inpainter are OpenCV's;
  the file only calls them. They are parameters of the model: each returns a matrix or
  throws (\<open>None\<close>). The strength \<open>h\<close> is a C \<^verbatim>\<open>float\<close>, taken here as the real number
  it denotes; the scale factors of \<^verbatim>\<open>cv::resize\<close> and the inpainting radius are
  \<^verbatim>\<open>double\<close>s holding \<open>1/4\<close>, \<open>0\<close> and an \<^verbatim>\<open>int\<close>.
\<close>

record kernels =
  k_denoise :: "mat \<Rightarrow> real list \<Rightarrow> int \<Rightarrow> int \<Rightarrow> norm_type \<Rightarrow> mat option"
  k_median :: "mat \<Rightarrow> int \<Rightarrow> mat option"
  k_resize :: "mat \<Rightarrow> nat \<times> nat \<Rightarrow> real \<Rightarrow> real \<Rightarrow> interpolation \<Rightarrow> mat option"
  k_inpaint :: "mat \<Rightarrow> mat \<Rightarrow> int \<Rightarrow> inpaint_flag \<Rightarrow> mat option"

definition fastNlMeansDenoising :: "kernels \<Rightarrow> mat \<Rightarrow> real list \<Rightarrow> int \<Rightarrow> int \<Rightarrow> norm_type \<Rightarrow> mat cv" where
  "fastNlMeansDenoising K src h templateWindowSize searchWindowSize normType =
     cv_call (FastNlMeansDenoising src h templateWindowSize searchWindowSize normType)
             (k_denoise K src h templateWindowSize searchWindowSize normType)"

definition medianBlur :: "kernels \<Rightarrow> mat \<Rightarrow> int \<Rightarrow> mat cv" where
  "medianBlur K src ksize = cv_call (MedianBlur src ksize) (k_median K src ksize)"

definition resize :: "kernels \<Rightarrow> mat \<Rightarrow> nat \<times> nat \<Rightarrow> real \<Rightarrow> real \<Rightarrow> interpolation \<Rightarrow> mat cv" where
  "resize K src dsize fx fy interp = cv_call (Resize src dsize fx fy interp) (k_resize K src dsize fx fy interp)"

definition inpaint :: "kernels \<Rightarrow> mat \<Rightarrow> mat \<Rightarrow> int \<Rightarrow> inpaint_flag \<Rightarrow> mat cv" where
  "inpaint K src inpaintMask inpaintRadius flags =
     cv_call (Inpaint src inpaintMask inpaintRadius flags) (k_inpaint K src inpaintMask inpaintRadius flags)"

subsection \<open>Channel plumbing and saturating subtraction\<close>

text \<open>
  Modelled from the spec: the bodies of \<^verbatim>\<open>cv::mixChannels\<close>, \<^verbatim>\<open>cv::subtract\<close>,
  \<^verbatim>\<open>cv::split\<close> and \<^verbatim>\<open>cv::merge\<close> are OpenCV's and are not in the repository. The
  spec has them extract one channel and write it back in place, subtract into a signed
  or a saturated unsigned 16-bit result, split an image into single-channel buffers and
  recombine them. Each throws on operands whose shapes do not fit.
\<close>

definition mix_channels :: "mat \<Rightarrow> mat \<Rightarrow> nat \<Rightarrow> nat \<Rightarrow> mat option" where
  "mix_channels src dst from to =
     (if m_rows src = m_rows dst \<and> m_cols src = m_cols dst \<and> m_depth src = m_depth dst
         \<and> from < m_chans src \<and> to < m_chans dst
      then Some (dst\<lparr>m_data :=
             map (\<lambda>i. if i mod m_chans dst = to
                      then m_data src ! ((i div m_chans dst) * m_chans src + from)
                      else m_data dst ! i)
                 [0..<length (m_data dst)]\<rparr>)
      else None)"

definition saturate :: "depth \<Rightarrow> int \<Rightarrow> int" where
  "saturate d v =
     (case d of
        CV_8U \<Rightarrow> max 0 (min 255 v)
      | CV_16U \<Rightarrow> max 0 (min 65535 v)
      | CV_16S \<Rightarrow> max (- 32768) (min 32767 v))"

definition subtract_mat :: "mat \<Rightarrow> mat \<Rightarrow> depth \<Rightarrow> mat option" where
  "subtract_mat a b dtype =
     (if m_rows a = m_rows b \<and> m_cols a = m_cols b \<and> m_chans a = m_chans b
      then Some \<lparr>m_rows = m_rows a, m_cols = m_cols a, m_chans = m_chans a, m_depth = dtype,
                 m_data = map (\<lambda>(x, y). saturate dtype (x - y)) (zip (m_data a) (m_data b))\<rparr>
      else None)"

definition plane :: "mat \<Rightarrow> nat \<Rightarrow> mat" where
  "plane m c =
     \<lparr>m_rows = m_rows m, m_cols = m_cols m, m_chans = 1, m_depth = m_depth m,
      m_data = map (\<lambda>p. m_data m ! (p * m_chans m + c)) [0..<m_rows m * m_cols m]\<rparr>"

definition split_mat :: "mat \<Rightarrow> mat list" where
  "split_mat m = map (plane m) [0..<m_chans m]"

definition merge_mat :: "mat list \<Rightarrow> mat option" where
  "merge_mat mv =
     (case mv of
        [] \<Rightarrow> None
      | m0 # _ \<Rightarrow>
          if list_all (\<lambda>m. m_rows m = m_rows m0 \<and> m_cols m = m_cols m0 \<and> m_depth m = m_depth m0) mv
          then Some \<lparr>m_rows = m_rows m0, m_cols = m_cols m0, m_chans = sum_list (map m_chans mv),
                     m_depth = m_depth m0,
                     m_data = concat (map (\<lambda>p. concat (map (\<lambda>m. take (m_chans m) (drop (p * m_chans m) (m_data m))) mv))
                                          [0..<m_rows m0 * m_cols m0])\<rparr>
          else None)"

definition mixChannels :: "mat \<Rightarrow> mat \<Rightarrow> nat \<Rightarrow> nat \<Rightarrow> mat cv" where
  "mixChannels src dst from to = cv_call (MixChannels src dst from to) (mix_channels src dst from to)"

definition subtract :: "mat \<Rightarrow> mat \<Rightarrow> depth \<Rightarrow> mat cv" where
  "subtract a b dtype = cv_call (Subtract a b dtype) (subtract_mat a b dtype)"

definition split :: "mat \<Rightarrow> mat list cv" where
  "split m = cv_call (Split m) (Some (split_mat m))"

definition merge :: "mat list \<Rightarrow> mat cv" where
  "merge mv = cv_call (Merge mv) (merge_mat mv)"

section \<open>The entry points\<close>

subsection \<open>\<^verbatim>\<open>denoise_nlm_opencv\<close>\<close>

text \<open>Step 1 of the three-channel path (source lines 17 to 21).\<close>

definition nlm_step1 :: "kernels \<Rightarrow> mat \<Rightarrow> real \<Rightarrow> mat cv" where
  "nlm_step1 K img h = fastNlMeansDenoising K img [0, h, h] 3 11 NORM_L1"

text \<open>Step 2 (lines 23 to 29): the median filter on the V channel.\<close>

definition nlm_step2 :: "kernels \<Rightarrow> mat \<Rightarrow> mat cv" where
  "nlm_step2 K out =
     cv_bind (mixChannels out (mat_new (mat_size out) CV_16U 1) 2 0) (\<lambda>V.
     cv_bind (medianBlur K V 3) (\<lambda>V.
     mixChannels V out 0 2))"

text \<open>Step 3 (lines 31 to 40): the low-frequency denoise.\<close>

definition nlm_step3 :: "kernels \<Rightarrow> mat \<Rightarrow> real \<Rightarrow> mat cv" where
  "nlm_step3 K out h =
     cv_bind (resize K out (0, 0) (1 / 4) (1 / 4) INTER_AREA) (\<lambda>sub.
     cv_bind (fastNlMeansDenoising K sub [0, h / 8, h / 4] 3 21 NORM_L1) (\<lambda>sub_dn.
     cv_bind (subtract sub sub_dn CV_16S) (\<lambda>sub_res.
     cv_bind (resize K sub_res (mat_size out) 0 0 INTER_CUBIC) (\<lambda>res.
     subtract out res CV_16U))))"

definition denoise_nlm_opencv :: "kernels \<Rightarrow> u16 list \<Rightarrow> nat \<Rightarrow> nat \<Rightarrow> nat \<Rightarrow> nat \<Rightarrow> real \<Rightarrow> u16 list cv" where
  "denoise_nlm_opencv K data rows cols channels rowStride h =
     cv_bind (cv_ret (mat_view CV_16U data rows cols channels rowStride)) (\<lambda>img.
     if channels = 3 then
       cv_bind (nlm_step1 K img h) (\<lambda>out.
       cv_bind (nlm_step2 K out) (\<lambda>out.
       cv_bind (nlm_step3 K out h) (\<lambda>out.
       cv_ret (copy_back data rows (\<lambda>y. int_mul y rowStride) (int_mul cols channels) out))))
     else
       cv_bind (fastNlMeansDenoising K img [h] 3 11 NORM_L1) (\<lambda>dst.
       cv_ret (copy_back data rows (\<lambda>y. int_mul y rowStride) (int_mul cols channels) dst)))"

subsection \<open>\<^verbatim>\<open>denoise_quattro_highres_opencv\<close>\<close>

definition denoise_quattro_highres_opencv :: "kernels \<Rightarrow> u16 list \<Rightarrow> nat \<Rightarrow> nat \<Rightarrow> nat \<Rightarrow> nat \<Rightarrow> real \<Rightarrow> u16 list cv" where
  "denoise_quattro_highres_opencv K data rows cols channels rowStride h =
     cv_bind (cv_ret (mat_view CV_16U data rows cols channels rowStride)) (\<lambda>img.
     if channels = 3 then
       cv_bind (fastNlMeansDenoising K img [0, h, h * 2] 3 11 NORM_L1) (\<lambda>out.
       cv_ret (copy_back data rows (\<lambda>y. int_mul y rowStride) (int_mul cols channels) out))
     else
       cv_bind (fastNlMeansDenoising K img [h] 3 11 NORM_L1) (\<lambda>dst.
       cv_ret (copy_back data rows (\<lambda>y. int_mul y rowStride) (int_mul cols channels) dst)))"

subsection \<open>\<^verbatim>\<open>bicubic_upscale_opencv\<close>\<close>

text \<open>
  \<^verbatim>\<open>cv::resize(srcMat, dstMat, dstMat.size(), 0.0, 0.0, cv::INTER_CUBIC)\<close>: the
  destination view already has the requested size and type, so OpenCV writes the rows
  of the result through it, each at the destination's stride.
\<close>

definition bicubic_upscale_opencv ::
  "kernels \<Rightarrow> u16 list \<Rightarrow> nat \<Rightarrow> nat \<Rightarrow> nat \<Rightarrow> nat \<Rightarrow> u16 list \<Rightarrow> nat \<Rightarrow> nat \<Rightarrow> nat \<Rightarrow> u16 list cv" where
  "bicubic_upscale_opencv K src srcRows srcCols channels srcStride dst dstRows dstCols dstStride =
     cv_bind (cv_ret (mat_view CV_16U src srcRows srcCols channels srcStride)) (\<lambda>srcMat.
     cv_bind (resize K srcMat (dstCols, dstRows) 0 0 INTER_CUBIC) (\<lambda>r.
     cv_ret (copy_back dst dstRows (\<lambda>y. Inr (y * dstStride)) (Inr (dstCols * channels)) r)))"

subsection \<open>\<^verbatim>\<open>inpaint_bad_pixels_opencv\<close>\<close>

text \<open>Line 127: \<^verbatim>\<open>(method == 0) ? cv::INPAINT_NS : cv::INPAINT_TELEA\<close>.\<close>

definition inpaintMethod :: "int \<Rightarrow> inpaint_flag" where
  "inpaintMethod method = (if method = 0 then INPAINT_NS else INPAINT_TELEA)"

text \<open>The loop over the channels (lines 147 to 151).\<close>

fun inpaint_channels :: "kernels \<Rightarrow> mat list \<Rightarrow> mat \<Rightarrow> int \<Rightarrow> inpaint_flag \<Rightarrow> mat list cv" where
  "inpaint_channels K [] maskMat inpaintRadius flags = cv_ret (Inr [])"
| "inpaint_channels K (ch # chs) maskMat inpaintRadius flags =
     cv_bind (inpaint K ch maskMat inpaintRadius flags) (\<lambda>out.
     cv_bind (inpaint_channels K chs maskMat inpaintRadius flags) (\<lambda>outs.
     cv_ret (Inr (out # outs))))"

definition inpaint_bad_pixels_opencv ::
  "kernels \<Rightarrow> u16 list \<Rightarrow> nat \<Rightarrow> nat \<Rightarrow> nat \<Rightarrow> nat \<Rightarrow> u8 list \<Rightarrow> nat \<Rightarrow> int \<Rightarrow> int \<Rightarrow> u16 list cv" where
  "inpaint_bad_pixels_opencv K data rows cols channels rowStride mask' maskStride inpaintRadius method =
     cv_bind (cv_ret (mat_view CV_16U data rows cols channels rowStride)) (\<lambda>img.
     cv_bind (cv_ret (mat_view CV_8U mask' rows cols 1 maskStride)) (\<lambda>maskMat.
     if channels = 1 then
       cv_bind (inpaint K img maskMat inpaintRadius (inpaintMethod method)) (\<lambda>out.
       cv_ret (copy_back data rows (\<lambda>y. int_mul y rowStride) (Inr cols) out))
     else
       cv_bind (split img) (\<lambda>channelMats.
       cv_bind (inpaint_channels K channelMats maskMat inpaintRadius (inpaintMethod method)) (\<lambda>channelMats.
       cv_bind (merge channelMats) (\<lambda>result.
       cv_ret (copy_back data rows (\<lambda>y. int_mul y rowStride) (int_mul cols channels) result))))))"

section \<open>Contracts of the kernels\<close>

text \<open>
  What the pipeline relies on from OpenCV: the denoiser, the median filter and the
  inpainter return a matrix of the shape and depth of their source; the resampler keeps
  channels and depth and returns the requested size when one is given. A returned
  matrix holds as many samples as its shape says.
\<close>

definition kernel_contract :: "kernels \<Rightarrow> bool" where
  "kernel_contract K \<longleftrightarrow>
     (\<forall>src h t s n dst. k_denoise K src h t s n = Some dst \<longrightarrow> same_shape dst src \<and> (wf_mat src \<longrightarrow> wf_mat dst)) \<and>
     (\<forall>src k dst. k_median K src k = Some dst \<longrightarrow> same_shape dst src \<and> (wf_mat src \<longrightarrow> wf_mat dst)) \<and>
     (\<forall>src dsize fx fy i dst. k_resize K src dsize fx fy i = Some dst \<longrightarrow>
        m_chans dst = m_chans src \<and> m_depth dst = m_depth src \<and> wf_mat dst \<and>
        (dsize \<noteq> (0, 0) \<longrightarrow> mat_size dst = dsize)) \<and>
     (\<forall>src msk r f dst. k_inpaint K src msk r f = Some dst \<longrightarrow> same_shape dst src \<and> (wf_mat src \<longrightarrow> wf_mat dst))"

text \<open>The inpainter leaves every pixel whose mask sample is zero as it was.\<close>

definition inpaint_keeps_unmasked :: "kernels \<Rightarrow> bool" where
  "inpaint_keeps_unmasked K \<longleftrightarrow>
     (\<forall>src msk r f dst p c. k_inpaint K src msk r f = Some dst \<longrightarrow> wf_mat src \<longrightarrow>
        p < m_rows src * m_cols src \<longrightarrow> c < m_chans src \<longrightarrow> sample msk p 0 = 0 \<longrightarrow>
        sample dst p c = sample src p c)"

text \<open>
  A view the entry points can address: rows do not overlap, the view lies inside the
  buffer, and the offsets the code computes in \<^verbatim>\<open>int\<close> are representable.
\<close>

definition valid_view :: "nat \<Rightarrow> nat \<Rightarrow> nat \<Rightarrow> nat \<Rightarrow> nat \<Rightarrow> bool" where
  "valid_view len rows cols channels rowStride \<longleftrightarrow>
     cols * channels \<le> rowStride \<and> rows * rowStride \<le> INT_MAX \<and>
     view_ok len rows (cols * channels) rowStride"

text \<open>Sample \<open>i\<close> of a strided buffer belongs to the logical region of the view.\<close>

definition in_view :: "nat \<Rightarrow> nat \<Rightarrow> nat \<Rightarrow> nat \<Rightarrow> bool" where
  "in_view rows width stride i \<longleftrightarrow> i div stride < rows \<and> i mod stride < width"






subsection \<open>An instance of the kernels\<close>

text \<open>
  A small executable instance that meets the contracts: the denoiser and the median
  filter return their source, the resampler picks the nearest source pixel (scaling to at
  least one pixel when no size is given), and the inpainter writes zero into the masked
  pixels.
\<close>

definition nearest :: "mat \<Rightarrow> nat \<times> nat \<Rightarrow> mat" where
  "nearest src sz =
     \<lparr>m_rows = snd sz, m_cols = fst sz, m_chans = m_chans src, m_depth = m_depth src,
      m_data = map (\<lambda>i. m_data src !
                     ((((i div m_chans src) div fst sz) * m_rows src div snd sz) * m_cols src * m_chans src
                      + (((i div m_chans src) mod fst sz) * m_cols src div fst sz) * m_chans src
                      + i mod m_chans src))
                  [0..<snd sz * fst sz * m_chans src]\<rparr>"

definition demo_kernels :: kernels where
  "demo_kernels =
     \<lparr>k_denoise = (\<lambda>src h t s n. Some src),
      k_median = (\<lambda>src k. Some src),
      k_resize = (\<lambda>src dsize fx fy i.
         let sz = (if dsize = (0, 0)
                   then (max 1 (nat \<lfloor>real (m_cols src) * fx\<rfloor>), max 1 (nat \<lfloor>real (m_rows src) * fy\<rfloor>))
                   else dsize)
         in if fst sz = 0 \<or> snd sz = 0 then None else Some (nearest src sz)),
      k_inpaint = (\<lambda>src msk r f.
         Some (src\<lparr>m_data := map (\<lambda>i. if sample msk (i div m_chans src) 0 = 0 then m_data src ! i else 0)
                                  [0..<length (m_data src)]\<rparr>))\<rparr>"

section \<open>Basic facts\<close>

lemma cv_bind_ret: "cv_bind (cv_ret (Inr x)) f = f x"
  by (simp add: cv_bind_def cv_ret_def split: prod.splits)

lemma cv_bind_ret_Inl: "cv_bind (cv_ret (Inl e)) f = ([], Inl e)"
  by (simp add: cv_bind_def cv_ret_def)

lemma fst_cv_bind:
  "fst (cv_bind m f) = (case snd m of Inl e \<Rightarrow> fst m | Inr x \<Rightarrow> fst m @ fst (f x))"
  by (simp add: cv_bind_def split: prod.splits sum.splits)

lemma snd_cv_bind:
  "snd (cv_bind m f) = (case snd m of Inl e \<Rightarrow> Inl e | Inr x \<Rightarrow> snd (f x))"
  by (simp add: cv_bind_def split: prod.splits sum.splits)

lemma cv_bind_Inr_iff:
  "cv_bind m f = (l, Inr y) \<longleftrightarrow> (\<exists>l1 x l2. m = (l1, Inr x) \<and> f x = (l2, Inr y) \<and> l = l1 @ l2)"
  by (cases m) (auto simp: cv_bind_def split: prod.splits sum.splits)

lemma cv_call_Inr_iff: "cv_call c r = (l, Inr x) \<longleftrightarrow> l = [c] \<and> r = Some x"
  by (auto simp: cv_call_def split: option.splits)

lemma cv_ret_Inr_iff: "cv_ret r = (l, Inr x) \<longleftrightarrow> l = [] \<and> r = Inr x"
  by (auto simp: cv_ret_def)

lemma fst_cv_call: "fst (cv_call c r) = [c]"
  by (simp add: cv_call_def)

lemma snd_cv_call: "snd (cv_call c r) = (case r of None \<Rightarrow> Inl CvException | Some x \<Rightarrow> Inr x)"
  by (simp add: cv_call_def)

lemma fst_cv_ret: "fst (cv_ret r) = []"
  by (simp add: cv_ret_def)

lemma snd_cv_ret: "snd (cv_ret r) = r"
  by (simp add: cv_ret_def)

lemmas cv_simps = cv_bind_ret cv_bind_ret_Inl fst_cv_bind snd_cv_bind fst_cv_call snd_cv_call
  fst_cv_ret snd_cv_ret

text \<open>Unfolding everything evaluates an entry point on a concrete buffer.\<close>

lemma replicate_2: "replicate 2 x = [x, x]"
  by (simp add: numeral_2_eq_2)

lemma upt_numeral_unfold:
  "[0..<numeral n] = 0 # [Suc 0..<numeral n]"
  "[Suc m..<numeral n] = (if Suc m < numeral n then Suc m # [Suc (Suc m)..<numeral n] else [])"
  by (simp_all add: upt_rec[symmetric] upt_conv_Cons)

lemmas eval_defs = denoise_nlm_opencv_def denoise_quattro_highres_opencv_def
  bicubic_upscale_opencv_def inpaint_bad_pixels_opencv_def inpaintMethod_def
  nlm_step1_def nlm_step2_def nlm_step3_def
  fastNlMeansDenoising_def medianBlur_def resize_def inpaint_def
  mixChannels_def subtract_def split_def merge_def
  mix_channels_def subtract_mat_def split_mat_def plane_def merge_mat_def saturate_def
  mat_view_def view_content_def view_ok_def mat_new_def mat_size_def
  copy_back_def memcpy_row_def int_mul_def INT_MAX_def
  cv_bind_def cv_ret_def cv_call_def demo_kernels_def nearest_def sample_def
  upt_numeral_unfold

subsection \<open>The write-back loop\<close>

lemma memcpy_row_length:
  "memcpy_row dst doff src soff n = Inr dst' \<Longrightarrow> length dst' = length dst"
  by (auto simp: memcpy_row_def split: if_splits)

lemma memcpy_row_outside:
  "memcpy_row dst doff src soff n = Inr dst' \<Longrightarrow> i < doff \<or> doff + n \<le> i \<Longrightarrow> dst' ! i = dst ! i"
  by (auto simp: memcpy_row_def nth_append split: if_splits)

lemma memcpy_row_inside:
  "memcpy_row dst doff src soff n = Inr dst' \<Longrightarrow> j < n \<Longrightarrow>
   dst' ! (doff + j) = word_of_int (src ! (soff + j))"
  by (auto simp: memcpy_row_def nth_append split: if_splits)

lemma copy_rows_length:
  "copy_rows data off out n ys = Inr data' \<Longrightarrow> length data' = length data"
proof (induction ys arbitrary: data)
  case Nil
  then show ?case by simp
next
  case (Cons y ys)
  then show ?case
    by (auto split: sum.splits dest: memcpy_row_length)
qed

lemma copy_rows_outside:
  "copy_rows data off out (Inr len) ys = Inr data' \<Longrightarrow>
   (\<And>y d. y \<in> set ys \<Longrightarrow> off y = Inr d \<Longrightarrow> i < d \<or> d + len \<le> i) \<Longrightarrow>
   data' ! i = data ! i"
proof (induction ys arbitrary: data)
  case Nil
  then show ?case by simp
next
  case (Cons y ys)
  from Cons.prems(1) obtain d mid where d: "off y = Inr d"
    and mid: "memcpy_row data d (m_data out) (y * (m_cols out * m_chans out)) len = Inr mid"
    and rest: "copy_rows mid off out (Inr len) ys = Inr data'"
    by (auto split: sum.splits)
  have "data' ! i = mid ! i"
    using rest Cons.prems(2) by (intro Cons.IH) auto
  also have "mid ! i = data ! i"
    using mid Cons.prems(2)[of y d] d by (auto dest: memcpy_row_outside)
  finally show ?case .
qed

lemma copy_rows_inside:
  "copy_rows data off out (Inr len) ys = Inr data' \<Longrightarrow> distinct ys \<Longrightarrow> len \<le> stride \<Longrightarrow>
   (\<And>y' d. y' \<in> set ys \<Longrightarrow> off y' = Inr d \<Longrightarrow> d = y' * stride) \<Longrightarrow>
   y \<in> set ys \<Longrightarrow> j < len \<Longrightarrow>
   data' ! (y * stride + j) = word_of_int (m_data out ! (y * (m_cols out * m_chans out) + j))"
proof (induction ys arbitrary: data)
  case Nil
  then show ?case by simp
next
  case (Cons z ys)
  from Cons.prems(1) obtain d mid where d: "off z = Inr d"
    and mid: "memcpy_row data d (m_data out) (z * (m_cols out * m_chans out)) len = Inr mid"
    and rest: "copy_rows mid off out (Inr len) ys = Inr data'"
    by (auto split: sum.splits)
  have dz: "d = z * stride" using Cons.prems(4)[of z d] d by simp
  show ?case
  proof (cases "y = z")
    case True
    have "data' ! (y * stride + j) = mid ! (y * stride + j)"
    proof (rule copy_rows_outside[OF rest])
      fix y' d' assume y': "y' \<in> set ys" and d': "off y' = Inr d'"
      then have e: "d' = y' * stride" using Cons.prems(4)[of y' d'] by simp
      have ne: "y' \<noteq> y" using y' Cons.prems(2) True by auto
      show "y * stride + j < d' \<or> d' + len \<le> y * stride + j"
      proof (cases "y < y'")
        case True
        then have "Suc y \<le> y'" by simp
        then have "Suc y * stride \<le> y' * stride" by (rule mult_le_mono1)
        then show ?thesis using e Cons.prems(3,6) by simp
      next
        case False
        then have "Suc y' \<le> y" using ne by simp
        then have "Suc y' * stride \<le> y * stride" by (rule mult_le_mono1)
        then show ?thesis using e Cons.prems(3,6) by simp
      qed
    qed
    also have "\<dots> = word_of_int (m_data out ! (y * (m_cols out * m_chans out) + j))"
      using memcpy_row_inside[OF mid Cons.prems(6)] dz True by simp
    finally show ?thesis .
  next
    case False
    then have "y \<in> set ys" using Cons.prems(5) by simp
    then show ?thesis
      using Cons.IH[OF rest _ Cons.prems(3) _ _ Cons.prems(6)] Cons.prems(2,4) by auto
  qed
qed

lemma copy_rows_succeeds:
  "(\<And>y. y \<in> set ys \<Longrightarrow> \<exists>d. off y = Inr d \<and> d + len \<le> length data
       \<and> y * (m_cols out * m_chans out) + len \<le> length (m_data out)) \<Longrightarrow>
   \<exists>data'. copy_rows data off out (Inr len) ys = Inr data'"
proof (induction ys arbitrary: data)
  case Nil
  then show ?case by simp
next
  case (Cons y ys)
  from Cons.prems[of y] obtain d where d: "off y = Inr d" "d + len \<le> length data"
    "y * (m_cols out * m_chans out) + len \<le> length (m_data out)" by auto
  then obtain mid where mid: "memcpy_row data d (m_data out) (y * (m_cols out * m_chans out)) len = Inr mid"
    by (auto simp: memcpy_row_def)
  have "length mid = length data" using mid by (rule memcpy_row_length)
  then have "\<exists>data'. copy_rows mid off out (Inr len) ys = Inr data'"
    using Cons.prems by (intro Cons.IH) auto
  then show ?case using d mid by auto
qed

lemma in_view_row:
  "y < rows \<Longrightarrow> j < width \<Longrightarrow> width \<le> stride \<Longrightarrow> in_view rows width stride (y * stride + j)"
  by (simp add: in_view_def)

lemma not_in_view_row:
  assumes "\<not> in_view rows width stride i" "y < rows" "width \<le> stride"
  shows "i < y * stride \<or> y * stride + width \<le> i"
proof (rule ccontr)
  assume "\<not> ?thesis"
  then have a: "y * stride \<le> i" and b: "i < y * stride + width" by auto
  define j where "j = i - y * stride"
  have "i = y * stride + j" "j < width" using a b by (auto simp: j_def)
  then show False using assms in_view_row[of y rows j width stride] by simp
qed

lemma copy_rows_Nil_n: "copy_rows data off out (Inl e) ys = Inr data' \<Longrightarrow> data' = data"
  by (cases ys) (auto split: sum.splits)

lemma copy_back_length:
  "copy_back data rows off n out = Inr data' \<Longrightarrow> length data' = length data"
  by (auto simp: copy_back_def split: if_splits dest: copy_rows_length)

lemma copy_back_padding:
  assumes res: "copy_back data rows off n out = Inr data'"
    and off: "\<And>y d. off y = Inr d \<Longrightarrow> d = y * stride"
    and n: "\<And>len. n = Inr len \<Longrightarrow> len = width"
    and w: "width \<le> stride"
    and i: "\<not> in_view rows width stride i"
  shows "data' ! i = data ! i"
proof (cases n)
  case (Inl e)
  then show ?thesis using res by (auto simp: copy_back_def split: if_splits dest: copy_rows_Nil_n)
next
  case (Inr len)
  then have len: "len = width" by (rule n)
  have r: "copy_rows data off out (Inr width) [0..<rows] = Inr data'"
    using res Inr len by (auto simp: copy_back_def split: if_splits)
  show ?thesis
  proof (rule copy_rows_outside[OF r])
    fix y d assume "y \<in> set [0..<rows]" "off y = Inr d"
    then have "y < rows" "d = y * stride" using off by auto
    then show "i < d \<or> d + width \<le> i" using not_in_view_row[OF i _ w] by simp
  qed
qed

lemma view_ok_row:
  assumes a: "view_ok len rows width stride" and b: "y < rows"
  shows "y * stride + width \<le> len"
proof -
  have "y \<le> rows - 1" using b by simp
  then have c: "y * stride \<le> (rows - 1) * stride" by (rule mult_le_mono1)
  have "(rows - 1) * stride + width \<le> len" using a b unfolding view_ok_def by auto
  with c show ?thesis by linarith
qed

lemma copy_back_written:
  assumes d: "m_depth out \<noteq> CV_8U" and wf: "wf_mat out" and r: "m_rows out = rows"
    and rl: "m_cols out * m_chans out = width" and w: "width \<le> stride"
    and v: "view_ok (length data) rows width stride"
    and off: "\<And>y. y < rows \<Longrightarrow> off y = Inr (y * stride)"
  shows "\<exists>data'. copy_back data rows off (Inr width) out = Inr data'
           \<and> (\<forall>y<rows. \<forall>j<width. data' ! (y * stride + j) = word_of_int (m_data out ! (y * width + j)))"
proof -
  have len: "length (m_data out) = rows * width"
    using wf r rl by (simp add: wf_mat_def mult.assoc)
  have "\<exists>data'. copy_rows data off out (Inr width) [0..<rows] = Inr data'"
  proof (rule copy_rows_succeeds)
    fix y assume "y \<in> set [0..<rows]"
    then have y: "y < rows" by simp
    then have "Suc y \<le> rows" by simp
    then have "Suc y * width \<le> rows * width" by (rule mult_le_mono1)
    then have "y * width + width \<le> length (m_data out)" using len by simp
    then show "\<exists>d. off y = Inr d \<and> d + width \<le> length data
        \<and> y * (m_cols out * m_chans out) + width \<le> length (m_data out)"
      using off[OF y] view_ok_row[OF v y] rl by simp
  qed
  then obtain data' where c: "copy_rows data off out (Inr width) [0..<rows] = Inr data'" ..
  have "data' ! (y * stride + j) = word_of_int (m_data out ! (y * width + j))"
    if "y < rows" "j < width" for y j
  proof -
    have "data' ! (y * stride + j) = word_of_int (m_data out ! (y * (m_cols out * m_chans out) + j))"
    proof (rule copy_rows_inside[OF c _ w])
      show "distinct [0..<rows]" by simp
      show "y \<in> set [0..<rows]" using that by simp
      show "j < width" using that by simp
      fix y' d assume "y' \<in> set [0..<rows]" "off y' = Inr d"
      then show "d = y' * stride" using off[of y'] by simp
    qed
    then show ?thesis using rl by simp
  qed
  then show ?thesis using c d by (auto simp: copy_back_def)
qed


lemma int_mul_ok: "a * b \<le> INT_MAX \<Longrightarrow> int_mul a b = Inr (a * b)"
  by (simp add: int_mul_def)

lemma valid_view_off:
  assumes "valid_view len rows cols channels rowStride" "y < rows"
  shows "int_mul y rowStride = Inr (y * rowStride)"
proof -
  have "y \<le> rows" using assms(2) by simp
  then have "y * rowStride \<le> rows * rowStride" by (rule mult_le_mono1)
  moreover have "rows * rowStride \<le> INT_MAX" using assms(1) unfolding valid_view_def by blast
  ultimately have "y * rowStride \<le> INT_MAX" by linarith
  then show ?thesis by (rule int_mul_ok)
qed

lemma valid_view_width:
  assumes "valid_view len rows cols channels rowStride" "0 < rows"
  shows "int_mul cols channels = Inr (cols * channels)"
proof -
  have "1 \<le> rows" using assms(2) by simp
  then have "1 * rowStride \<le> rows * rowStride" by (rule mult_le_mono1)
  moreover have "rows * rowStride \<le> INT_MAX" "cols * channels \<le> rowStride"
    using assms(1) unfolding valid_view_def by blast+
  ultimately have "cols * channels \<le> INT_MAX" by linarith
  then show ?thesis by (rule int_mul_ok)
qed

subsection \<open>Reading a view\<close>

lemma concat_rows_length:
  "(\<And>y. y < n \<Longrightarrow> length (f y) = w) \<Longrightarrow> length (concat (map f [0..<n])) = n * w"
  by (induction n) auto

lemma concat_rows_nth:
  "(\<And>y. y < n \<Longrightarrow> length (f y) = w) \<Longrightarrow> y < n \<Longrightarrow> j < w \<Longrightarrow>
   concat (map f [0..<n]) ! (y * w + j) = f y ! j"
proof (induction n)
  case 0
  then show ?case by simp
next
  case (Suc n)
  have len: "length (concat (map f [0..<n])) = n * w"
    using Suc.prems(1) by (intro concat_rows_length) simp
  show ?case
  proof (cases "y < n")
    case True
    then have "Suc y \<le> n" by simp
    then have "Suc y * w \<le> n * w" by (rule mult_le_mono1)
    then have "y * w + j < n * w" using Suc.prems(3) by simp
    then show ?thesis using Suc.IH[OF _ True Suc.prems(3)] Suc.prems(1) len
      by (simp add: nth_append)
  next
    case False
    then have "y = n" using Suc.prems(2) by simp
    then show ?thesis using len by (simp add: nth_append)
  qed
qed

lemma view_row_length:
  assumes "view_ok (length buf) rows width stride" "y < rows"
  shows "length (map uint (take width (drop (y * stride) buf))) = width"
  using view_ok_row[OF assms] by simp

lemma wf_view_content:
  assumes "view_ok (length buf) rows (cols * channels) stride"
  shows "wf_mat (view_content d buf rows cols channels stride)"
  using concat_rows_length[of rows "\<lambda>y. map uint (take (cols * channels) (drop (y * stride) buf))" "cols * channels"]
    view_row_length[OF assms]
  by (simp add: wf_mat_def view_content_def mult.assoc)

lemma view_content_nth:
  assumes "view_ok (length buf) rows (cols * channels) stride" "y < rows" "j < cols * channels"
  shows "m_data (view_content d buf rows cols channels stride) ! (y * (cols * channels) + j)
         = uint (buf ! (y * stride + j))"
proof -
  have "concat (map (\<lambda>y. map uint (take (cols * channels) (drop (y * stride) buf))) [0..<rows])
          ! (y * (cols * channels) + j)
        = map uint (take (cols * channels) (drop (y * stride) buf)) ! j"
    using view_row_length[OF assms(1)] assms(2,3) by (intro concat_rows_nth) auto
  also have "\<dots> = uint (buf ! (y * stride + j))"
    using view_ok_row[OF assms(1,2)] assms(3) by simp
  finally show ?thesis by (simp add: view_content_def)
qed

lemma view_content_shape [simp]:
  "m_rows (view_content d buf rows cols channels stride) = rows"
  "m_cols (view_content d buf rows cols channels stride) = cols"
  "m_chans (view_content d buf rows cols channels stride) = channels"
  "m_depth (view_content d buf rows cols channels stride) = d"
  by (simp_all add: view_content_def)

subsection \<open>The instance meets the contracts\<close>

lemma demo_kernels_contract: "kernel_contract demo_kernels"
  unfolding kernel_contract_def demo_kernels_def
  by (auto simp: same_shape_def wf_mat_def nearest_def mat_size_def Let_def split: if_splits)

lemma demo_kernels_keep_unmasked: "inpaint_keeps_unmasked demo_kernels"
  unfolding inpaint_keeps_unmasked_def
proof (intro allI impI)
  fix src msk :: mat and r :: int and f :: inpaint_flag and dst :: mat and p c :: nat
  assume a: "k_inpaint demo_kernels src msk r f = Some dst"
    and wf: "wf_mat src" and p: "p < m_rows src * m_cols src" and c: "c < m_chans src"
    and m: "sample msk p 0 = 0"
  have "Suc p \<le> m_rows src * m_cols src" using p by simp
  then have "Suc p * m_chans src \<le> m_rows src * m_cols src * m_chans src" by (rule mult_le_mono1)
  then have lt: "p * m_chans src + c < length (m_data src)" using wf c by (simp add: wf_mat_def)
  have dv: "(p * m_chans src + c) div m_chans src = p" using c by simp
  show "sample dst p c = sample src p c"
    using a lt dv m by (auto simp: sample_def demo_kernels_def)
qed

section \<open>The simplified high-resolution pipeline\<close>

text \<open>
  C3. On a three-channel input \<^verbatim>\<open>denoise_quattro_highres_opencv\<close> makes exactly one
  OpenCV call: the patch denoiser on the full-resolution view with strengths
  \<open>{0, h, 2h}\<close>, patch window 3, search window 11 and the L1 norm; there is no median
  filter and no low-frequency correction. On any other channel count, a single channel
  in particular, the one call has the single strength \<open>h\<close> and the same windows and
  norm. The buffer written back is the output of that call.
\<close>

theorem quattro_single_pass:
  assumes "view_ok (length data) rows (cols * channels) rowStride"
  shows "fst (denoise_quattro_highres_opencv K data rows cols channels rowStride h) =
           [FastNlMeansDenoising (view_content CV_16U data rows cols channels rowStride)
              (if channels = 3 then [0, h, h * 2] else [h]) 3 11 NORM_L1]
         \<and> snd (denoise_quattro_highres_opencv K data rows cols channels rowStride h) =
           (case k_denoise K (view_content CV_16U data rows cols channels rowStride)
                   (if channels = 3 then [0, h, h * 2] else [h]) 3 11 NORM_L1 of
              None \<Rightarrow> Inl CvException
            | Some out \<Rightarrow> copy_back data rows (\<lambda>y. int_mul y rowStride) (int_mul cols channels) out)"
  using assms
  by (simp add: denoise_quattro_highres_opencv_def mat_view_def fastNlMeansDenoising_def cv_simps
      split: option.splits)

theorem quattro_single_pass_witness:
  "fst (denoise_quattro_highres_opencv demo_kernels [1, 2, 3, 9] 1 1 3 4 10) =
     [FastNlMeansDenoising \<lparr>m_rows = 1, m_cols = 1, m_chans = 3, m_depth = CV_16U, m_data = [1, 2, 3]\<rparr>
        [0, 10, 20] 3 11 NORM_L1]
   \<and> fst (denoise_quattro_highres_opencv demo_kernels [5, 9] 1 1 1 2 10) =
     [FastNlMeansDenoising \<lparr>m_rows = 1, m_cols = 1, m_chans = 1, m_depth = CV_16U, m_data = [5]\<rparr>
        [10] 3 11 NORM_L1]"
proof -
  have a: "view_ok (length [1, 2, 3, 9 :: u16]) 1 (1 * 3) 4"
    by (simp add: view_ok_def)
  have b: "view_ok (length [5, 9 :: u16]) 1 (1 * 1) 2"
    by (simp add: view_ok_def)
  show ?thesis
    using quattro_single_pass [OF a, of demo_kernels 10] quattro_single_pass [OF b, of demo_kernels 10]
    by (simp add: view_content_def)
qed

section \<open>The inpainting method\<close>

lemma inpaint_channels_log:
  "c \<in> set (fst (inpaint_channels K chs maskMat r f)) \<Longrightarrow>
   \<exists>ch. c = Inpaint ch maskMat r f \<and> ch \<in> set chs"
  by (induction chs) (auto simp: cv_simps inpaint_def split: sum.splits)

lemma inpaint_log_cases:
  "c \<in> set (fst (inpaint_bad_pixels_opencv K data rows cols channels rowStride mask' maskStride r method)) \<Longrightarrow>
   (\<exists>ch. c = Inpaint ch (view_content CV_8U mask' rows cols 1 maskStride) r (inpaintMethod method))
   \<or> c = Split (view_content CV_16U data rows cols channels rowStride)
   \<or> (\<exists>mv. c = Merge mv)"
  by (auto simp: inpaint_bad_pixels_opencv_def mat_view_def cv_simps inpaint_def split_def merge_def
      split: sum.splits if_splits dest: inpaint_channels_log)

text \<open>
  C10. The method selector of defect repair maps the value 0, and only it, to
  \<^verbatim>\<open>INPAINT_NS\<close> (Navier-Stokes); every other value, not only 1, maps to
  \<^verbatim>\<open>INPAINT_TELEA\<close> (fast marching). Every inpainting call the entry point makes
  carries the method so chosen.
\<close>

theorem inpaint_method_selector:
  "(inpaintMethod method = INPAINT_NS \<longleftrightarrow> method = 0)
   \<and> (inpaintMethod method = INPAINT_TELEA \<longleftrightarrow> method \<noteq> 0)
   \<and> (\<forall>c \<in> set (fst (inpaint_bad_pixels_opencv K data rows cols channels rowStride mask' maskStride r method)).
        \<forall>src msk rad f. c = Inpaint src msk rad f \<longrightarrow>
          f = (if method = 0 then INPAINT_NS else INPAINT_TELEA))"
proof -
  have "f = (if method = 0 then INPAINT_NS else INPAINT_TELEA)"
    if "Inpaint src msk rad f \<in> set (fst (inpaint_bad_pixels_opencv K data rows cols channels rowStride mask' maskStride r method))"
    for src msk rad f
    using inpaint_log_cases [OF that] by (auto simp: inpaintMethod_def)
  then show ?thesis
    by (auto simp: inpaintMethod_def)
qed

theorem inpaint_method_selector_witness:
  "inpaintMethod 0 = INPAINT_NS \<and> inpaintMethod 1 = INPAINT_TELEA \<and> inpaintMethod 7 = INPAINT_TELEA
   \<and> inpaintMethod (- 1) = INPAINT_TELEA
   \<and> fst (inpaint_bad_pixels_opencv demo_kernels [5, 9] 1 1 1 2 [1] 1 3 7) =
       [Inpaint \<lparr>m_rows = 1, m_cols = 1, m_chans = 1, m_depth = CV_16U, m_data = [5]\<rparr>
                \<lparr>m_rows = 1, m_cols = 1, m_chans = 1, m_depth = CV_8U, m_data = [1]\<rparr> 3 INPAINT_TELEA]"
proof -
  have "fst (inpaint_bad_pixels_opencv demo_kernels [5, 9] 1 1 1 2 [1] 1 3 7) =
       [Inpaint \<lparr>m_rows = 1, m_cols = 1, m_chans = 1, m_depth = CV_16U, m_data = [5]\<rparr>
                \<lparr>m_rows = 1, m_cols = 1, m_chans = 1, m_depth = CV_8U, m_data = [1]\<rparr> 3 (inpaintMethod 7)]"
    by (simp add: inpaint_bad_pixels_opencv_def mat_view_def view_ok_def view_content_def inpaint_def cv_simps demo_kernels_def)
  then show ?thesis
    using inpaint_method_selector [of 0] inpaint_method_selector [of 1]
      inpaint_method_selector [of 7] inpaint_method_selector [of "- 1"]
    by simp
qed

subsection \<open>Channel extraction and insertion\<close>

lemma mix_extract:
  assumes "m_depth out = CV_16U" "c < m_chans out"
  shows "mix_channels out (mat_new (mat_size out) CV_16U 1) c 0 = Some (plane out c)"
  using assms by (simp add: mix_channels_def mat_new_def mat_size_def plane_def)

lemma pixel_index:
  fixes p n c k :: nat
  assumes "p < n" "c < k"
  shows "p * k + c < n * k" "(p * k + c) div k = p" "(p * k + c) mod k = c"
proof -
  have "Suc p \<le> n" using assms(1) by simp
  then have "Suc p * k \<le> n * k" by (rule mult_le_mono1)
  then show "p * k + c < n * k" using assms(2) by simp
  show "(p * k + c) div k = p" "(p * k + c) mod k = c" using assms(2) by simp_all
qed

lemma mix_insert:
  assumes ok: "mix_channels V out 0 to = Some out'" and wf: "wf_mat out"
  shows "same_shape out' out" "wf_mat out'"
    "\<And>p c. p < m_rows out * m_cols out \<Longrightarrow> c < m_chans out \<Longrightarrow>
       sample out' p c = (if c = to then sample V p 0 else sample out p c)"
proof -
  have o: "out' = out\<lparr>m_data := map (\<lambda>i. if i mod m_chans out = to
                      then m_data V ! ((i div m_chans out) * m_chans V + 0)
                      else m_data out ! i) [0..<length (m_data out)]\<rparr>"
    using ok by (auto simp: mix_channels_def split: if_splits)
  show "same_shape out' out" "wf_mat out'" using wf by (simp_all add: o same_shape_def wf_mat_def)
  fix p c assume p: "p < m_rows out * m_cols out" and c: "c < m_chans out"
  have "p * m_chans out + c < length (m_data out)"
    using pixel_index(1)[OF p c] wf by (simp add: wf_mat_def)
  moreover have "(p * m_chans out + c) div m_chans out = p" "(p * m_chans out + c) mod m_chans out = c"
    by (rule pixel_index[OF p c])+
  ultimately show "sample out' p c = (if c = to then sample V p 0 else sample out p c)"
    unfolding o sample_def by (auto simp del: div_mult_self3 div_mult_self4 mod_mult_self3 mod_mult_self4)
qed

subsection \<open>Saturating subtraction\<close>

lemma subtract_mat_Some:
  assumes "subtract_mat a b d = Some r"
  shows "m_rows r = m_rows a" "m_cols r = m_cols a" "m_chans r = m_chans a" "m_depth r = d"
    "length (m_data r) = min (length (m_data a)) (length (m_data b))"
    "\<And>i. i < length (m_data r) \<Longrightarrow> m_data r ! i = saturate d (m_data a ! i - m_data b ! i)"
  using assms by (auto simp: subtract_mat_def split: if_splits)

lemma subtract_mat_ok:
  "m_rows a = m_rows b \<Longrightarrow> m_cols a = m_cols b \<Longrightarrow> m_chans a = m_chans b \<Longrightarrow>
   \<exists>r. subtract_mat a b d = Some r"
  by (simp add: subtract_mat_def)

lemma denoise_nlm_opencv_3:
  assumes "view_ok (length data) rows (cols * 3) rowStride"
  shows "denoise_nlm_opencv K data rows cols 3 rowStride h =
     cv_bind (nlm_step1 K (view_content CV_16U data rows cols 3 rowStride) h) (\<lambda>out.
     cv_bind (nlm_step2 K out) (\<lambda>out.
     cv_bind (nlm_step3 K out h) (\<lambda>out.
     cv_ret (copy_back data rows (\<lambda>y. int_mul y rowStride) (int_mul cols 3) out))))"
  using assms by (simp add: denoise_nlm_opencv_def mat_view_def cv_bind_ret)

subsection \<open>Results of the entry points\<close>







subsection \<open>Shapes and faults\<close>

lemma copy_back_valid:
  assumes v: "valid_view (length data) rows cols channels rowStride"
    and d: "m_depth out \<noteq> CV_8U" and wf: "wf_mat out"
    and sh: "m_rows out = rows" "m_cols out = cols" "m_chans out = channels"
    and n: "n = int_mul cols channels \<or> n = Inr (cols * channels)"
  shows "\<exists>data'. copy_back data rows (\<lambda>y. int_mul y rowStride) n out = Inr data'
           \<and> (\<forall>y<rows. \<forall>j<cols * channels.
                 data' ! (y * rowStride + j) = word_of_int (m_data out ! (y * (cols * channels) + j)))"
proof (cases "rows = 0")
  case True
  then show ?thesis using d by (simp add: copy_back_def)
next
  case False
  then have n': "n = Inr (cols * channels)"
    using n valid_view_width[OF v] by auto
  have w: "cols * channels \<le> rowStride" "view_ok (length data) rows (cols * channels) rowStride"
    using v by (simp_all add: valid_view_def)
  show ?thesis
    unfolding n'
    by (rule copy_back_written[OF d wf sh(1) _ w]) (use sh valid_view_off[OF v] in auto)
qed










lemma valid_view_ok:
  "valid_view len rows cols channels rowStride \<Longrightarrow> view_ok len rows (cols * channels) rowStride"
  by (simp add: valid_view_def)





subsection \<open>Splitting and merging channels\<close>

lemma plane_shape [simp]:
  "m_rows (plane m c) = m_rows m" "m_cols (plane m c) = m_cols m" "m_chans (plane m c) = 1"
  "m_depth (plane m c) = m_depth m" "length (m_data (plane m c)) = m_rows m * m_cols m"
  by (simp_all add: plane_def)

lemma wf_plane: "wf_mat (plane m c)"
  by (simp add: wf_mat_def)

lemma plane_nth: "p < m_rows m * m_cols m \<Longrightarrow> m_data (plane m c) ! p = sample m p c"
  by (simp add: plane_def sample_def)

lemma split_mat_length: "length (split_mat m) = m_chans m"
  by (simp add: split_mat_def)

lemma split_mat_nth: "c < m_chans m \<Longrightarrow> split_mat m ! c = plane m c"
  by (simp add: split_mat_def)

lemma inpaint_channels_Inr_iff:
  "inpaint_channels K chs maskMat r f = (l, Inr outs) \<longleftrightarrow>
     l = map (\<lambda>ch. Inpaint ch maskMat r f) chs
     \<and> list_all2 (\<lambda>ch out. k_inpaint K ch maskMat r f = Some out) chs outs"
proof (induction chs arbitrary: l outs)
  case Nil
  then show ?case by (auto simp: cv_ret_def)
next
  case (Cons ch chs)
  show ?case
    by (auto simp: cv_bind_Inr_iff cv_ret_Inr_iff inpaint_def cv_call_Inr_iff Cons.IH list_all2_Cons1)
qed

lemma merge_planes:
  assumes m: "merge_mat mv = Some result"
    and sh: "\<And>m. m \<in> set mv \<Longrightarrow> m_rows m = R \<and> m_cols m = C \<and> m_chans m = 1 \<and> wf_mat m"
  shows "m_rows result = R" "m_cols result = C" "m_chans result = length mv" "wf_mat result"
    "\<And>p c. p < R * C \<Longrightarrow> c < length mv \<Longrightarrow> sample result p c = sample (mv ! c) p 0"
    "m_depth result = m_depth (hd mv)"
proof -
  obtain m0 ms where mv: "mv = m0 # ms" using m by (cases mv) (auto simp: merge_mat_def)
  have m0: "m_rows m0 = R" "m_cols m0 = C" using sh[of m0] mv by auto
  have one: "map m_chans mv = replicate (length mv) 1"
    using sh by (intro nth_equalityI) auto
  have res: "result = \<lparr>m_rows = R, m_cols = C, m_chans = sum_list (map m_chans mv), m_depth = m_depth m0,
      m_data = concat (map (\<lambda>p. concat (map (\<lambda>m. take (m_chans m) (drop (p * m_chans m) (m_data m))) mv))
                 [0..<R * C])\<rparr>"
    using m m0 unfolding mv merge_mat_def by (auto split: if_splits)
  have ch: "sum_list (map m_chans mv) = length mv"
    unfolding one by (simp add: sum_list_replicate)
  have row: "concat (map (\<lambda>m. take (m_chans m) (drop (p * m_chans m) (m_data m))) mv)
             = map (\<lambda>m. m_data m ! p) mv" if p: "p < R * C" for p
  proof -
    have "take (m_chans m) (drop (p * m_chans m) (m_data m)) = [m_data m ! p]" if "m \<in> set mv" for m
    proof -
      have "m_chans m = 1" "length (m_data m) = R * C" using sh[OF that] by (auto simp: wf_mat_def)
      then show ?thesis using p by (simp add: take_Suc_conv_app_nth)
    qed
    then have e: "map (\<lambda>m. take (m_chans m) (drop (p * m_chans m) (m_data m))) mv = map (\<lambda>m. [m_data m ! p]) mv"
      by (intro map_cong) auto
    show ?thesis unfolding e by (induction mv) simp_all
  qed
  have data: "m_data result = concat (map (\<lambda>p. map (\<lambda>m. m_data m ! p) mv) [0..<R * C])"
  proof -
    have "map (\<lambda>p. concat (map (\<lambda>m. take (m_chans m) (drop (p * m_chans m) (m_data m))) mv)) [0..<R * C]
        = map (\<lambda>p. map (\<lambda>m. m_data m ! p) mv) [0..<R * C]"
      by (intro map_cong) (auto simp: row)
    then show ?thesis unfolding res by (simp only: mat.simps)
  qed
  show "m_rows result = R" "m_cols result = C" and chr: "m_chans result = length mv"
    and "m_depth result = m_depth (hd mv)"
    using ch by (simp_all add: res mv)
  have len: "length (m_data result) = R * C * length mv"
    unfolding data by (rule concat_rows_length) simp
  then show "wf_mat result" using ch by (simp add: wf_mat_def res)
  fix p c assume p: "p < R * C" and c: "c < length mv"
  have "m_data result ! (p * length mv + c) = map (\<lambda>m. m_data m ! p) mv ! c"
    unfolding data using p c by (intro concat_rows_nth) auto
  also have "\<dots> = m_data (mv ! c) ! p" using c by (rule nth_map)
  finally have a: "sample result p c = m_data (mv ! c) ! p"
    unfolding sample_def chr .
  have "m_chans (mv ! c) = 1" using sh[of "mv ! c"] c by simp
  then have b: "sample (mv ! c) p 0 = m_data (mv ! c) ! p"
    unfolding sample_def by simp
  show "sample result p c = sample (mv ! c) p 0"
    unfolding a b by (rule refl)
qed

lemma merge_mat_ok:
  assumes ne: "mv \<noteq> []" and sh: "\<And>m. m \<in> set mv \<Longrightarrow> m_rows m = R \<and> m_cols m = C \<and> m_depth m = D"
  shows "\<exists>result. merge_mat mv = Some result"
proof -
  obtain m0 ms where mv: "mv = m0 # ms" using ne by (cases mv) auto
  have m0: "m_rows m0 = R \<and> m_cols m0 = C \<and> m_depth m0 = D"
    by (rule sh) (simp add: mv)
  have "m_rows m = m_rows m0 \<and> m_cols m = m_cols m0 \<and> m_depth m = m_depth m0" if "m \<in> set mv" for m
    using sh[OF that] m0 by simp
  then have "list_all (\<lambda>m. m_rows m = m_rows m0 \<and> m_cols m = m_cols m0 \<and> m_depth m = m_depth m0) mv"
    unfolding list_all_iff by blast
  then show ?thesis unfolding merge_mat_def mv by simp
qed

subsection \<open>Defect repair, pixel by pixel\<close>

lemma inpaint_multi_Inr:
  assumes "channels \<noteq> 1"
    and "inpaint_bad_pixels_opencv K data rows cols channels rowStride mask' maskStride r method = (l, Inr data')"
  shows "\<exists>outs result.
      view_ok (length data) rows (cols * channels) rowStride
    \<and> view_ok (length mask') rows (cols * 1) maskStride
    \<and> l = Split (view_content CV_16U data rows cols channels rowStride)
          # map (\<lambda>ch. Inpaint ch (view_content CV_8U mask' rows cols 1 maskStride) r (inpaintMethod method))
                (split_mat (view_content CV_16U data rows cols channels rowStride))
          @ [Merge outs]
    \<and> list_all2 (\<lambda>ch out. k_inpaint K ch (view_content CV_8U mask' rows cols 1 maskStride) r (inpaintMethod method) = Some out)
          (split_mat (view_content CV_16U data rows cols channels rowStride)) outs
    \<and> merge_mat outs = Some result
    \<and> copy_back data rows (\<lambda>y. int_mul y rowStride) (int_mul cols channels) result = Inr data'"
  using assms
  by (auto simp: inpaint_bad_pixels_opencv_def mat_view_def cv_bind_Inr_iff cv_ret_Inr_iff cv_call_Inr_iff
      split_def merge_def inpaint_channels_Inr_iff split: if_splits)

lemma inpaint_single_Inr:
  assumes "inpaint_bad_pixels_opencv K data rows cols 1 rowStride mask' maskStride r method = (l, Inr data')"
  shows "\<exists>out.
      view_ok (length data) rows (cols * 1) rowStride
    \<and> view_ok (length mask') rows (cols * 1) maskStride
    \<and> l = [Inpaint (view_content CV_16U data rows cols 1 rowStride)
               (view_content CV_8U mask' rows cols 1 maskStride) r (inpaintMethod method)]
    \<and> k_inpaint K (view_content CV_16U data rows cols 1 rowStride)
               (view_content CV_8U mask' rows cols 1 maskStride) r (inpaintMethod method) = Some out
    \<and> copy_back data rows (\<lambda>y. int_mul y rowStride) (Inr cols) out = Inr data'"
  using assms
  by (auto simp: inpaint_bad_pixels_opencv_def mat_view_def cv_bind_Inr_iff cv_ret_Inr_iff cv_call_Inr_iff
      inpaint_def split: if_splits)

lemma inpaint_shape:
  assumes "kernel_contract K" "k_inpaint K src msk r f = Some dst"
  shows "same_shape dst src" "wf_mat src \<Longrightarrow> wf_mat dst"
  using assms unfolding kernel_contract_def by blast+

lemma inpainted_planes:
  assumes K: "kernel_contract K"
    and all: "list_all2 (\<lambda>ch out. k_inpaint K ch msk r f = Some out) (split_mat img) outs"
  shows "length outs = m_chans img"
    "\<And>c. c < m_chans img \<Longrightarrow> k_inpaint K (plane img c) msk r f = Some (outs ! c)"
    "\<And>m. m \<in> set outs \<Longrightarrow> m_rows m = m_rows img \<and> m_cols m = m_cols img \<and> m_chans m = 1 \<and> wf_mat m"
    "\<And>m. m \<in> set outs \<Longrightarrow> m_rows m = m_rows img \<and> m_cols m = m_cols img \<and> m_depth m = m_depth img"
proof -
  show len: "length outs = m_chans img"
    using list_all2_lengthD[OF all] by (simp add: split_mat_length)
  show k: "k_inpaint K (plane img c) msk r f = Some (outs ! c)" if "c < m_chans img" for c
    using list_all2_nthD[OF all, of c] that by (simp add: split_mat_length split_mat_nth)
  have sh: "same_shape m (plane img c) \<and> wf_mat m" if "m = outs ! c" "c < m_chans img" for m c
    using inpaint_shape[OF K k[OF that(2)]] wf_plane that(1) by simp
  show "m_rows m = m_rows img \<and> m_cols m = m_cols img \<and> m_chans m = 1 \<and> wf_mat m"
    if mem: "m \<in> set outs" for m
  proof -
    obtain c where "c < length outs" "m = outs ! c" using mem by (auto simp: in_set_conv_nth)
    then show ?thesis using sh[of m c] len by (simp add: same_shape_def)
  qed
  show "m_rows m = m_rows img \<and> m_cols m = m_cols img \<and> m_depth m = m_depth img"
    if mem: "m \<in> set outs" for m
  proof -
    obtain c where "c < length outs" "m = outs ! c" using mem by (auto simp: in_set_conv_nth)
    then show ?thesis using sh[of m c] len by (simp add: same_shape_def)
  qed
qed

lemma plane_single:
  assumes "wf_mat m" "m_chans m = 1"
  shows "plane m 0 = m"
proof -
  have "map (\<lambda>p. m_data m ! p) [0..<length (m_data m)] = m_data m"
    by (rule map_nth)
  then show ?thesis using assms by (simp add: plane_def wf_mat_def)
qed

lemma pixel_offset:
  fixes y x c cols channels :: nat
  shows "(y * cols + x) * channels + c = y * (cols * channels) + (x * channels + c)"
  by (simp add: algebra_simps)

lemma view_sample:
  assumes "view_ok (length buf) rows (cols * channels) stride" "y < rows" "x < cols" "c < channels"
  shows "sample (view_content d buf rows cols channels stride) (y * cols + x) c
         = uint (buf ! (y * stride + (x * channels + c)))"
proof -
  have j: "x * channels + c < cols * channels" using pixel_index(1)[OF assms(3,4)] .
  show ?thesis
    unfolding sample_def view_content_shape pixel_offset
    by (rule view_content_nth[OF assms(1,2) j])
qed

lemma inpaint_pixels:
  assumes v: "valid_view (length data) rows cols channels rowStride" and K: "kernel_contract K"
    and res: "inpaint_bad_pixels_opencv K data rows cols channels rowStride mask' maskStride r method = (l, Inr data')"
    and y: "y < rows" and x: "x < cols" and c: "c < channels"
  shows "\<exists>out. k_inpaint K (plane (view_content CV_16U data rows cols channels rowStride) c)
                 (view_content CV_8U mask' rows cols 1 maskStride) r (inpaintMethod method) = Some out
           \<and> Inpaint (plane (view_content CV_16U data rows cols channels rowStride) c)
                 (view_content CV_8U mask' rows cols 1 maskStride) r (inpaintMethod method) \<in> set l
           \<and> data' ! (y * rowStride + (x * channels + c)) = word_of_int (sample out (y * cols + x) 0)"
proof -
  let ?img = "view_content CV_16U data rows cols channels rowStride"
  let ?msk = "view_content CV_8U mask' rows cols 1 maskStride"
  let ?f = "inpaintMethod method"
  have wf: "wf_mat ?img" by (rule wf_view_content[OF valid_view_ok[OF v]])
  have p: "y * cols + x < rows * cols" by (rule pixel_index(1)[OF y x])
  have j: "x * channels + c < cols * channels" by (rule pixel_index(1)[OF x c])
  show ?thesis
  proof (cases "channels = 1")
    case True
    then have c0: "c = 0" using c by simp
    from res True obtain out where
      k: "k_inpaint K (view_content CV_16U data rows cols 1 rowStride) (view_content CV_8U mask' rows cols 1 maskStride) r ?f = Some out"
      and l: "l = [Inpaint (view_content CV_16U data rows cols 1 rowStride) (view_content CV_8U mask' rows cols 1 maskStride) r ?f]"
      and cb: "copy_back data rows (\<lambda>y. int_mul y rowStride) (Inr cols) out = Inr data'"
      using inpaint_single_Inr by blast
    have ps: "plane ?img 0 = ?img" using wf True by (intro plane_single) simp_all
    note sh = inpaint_shape[OF K k]
    have o: "m_depth out \<noteq> CV_8U" "wf_mat out" "m_rows out = rows" "m_cols out = cols" "m_chans out = channels"
      using sh wf True by (simp_all add: same_shape_def)
    obtain data'' where cb': "copy_back data rows (\<lambda>y. int_mul y rowStride) (Inr cols) out = Inr data''"
      and w: "\<forall>y<rows. \<forall>j<cols * channels.
                 data'' ! (y * rowStride + j) = word_of_int (m_data out ! (y * (cols * channels) + j))"
      using copy_back_valid[OF v o, of "Inr cols"] True by auto
    have "data'' = data'" using cb cb' by simp
    then have "data' ! (y * rowStride + (x * channels + c))
        = word_of_int (m_data out ! (y * (cols * channels) + (x * channels + c)))"
      using w y j by blast
    also have "\<dots> = word_of_int (sample out (y * cols + x) 0)"
      using o(5) True c0 by (simp add: sample_def)
    finally show ?thesis using k l ps True c0 by auto
  next
    case False
    from inpaint_multi_Inr[OF False res] obtain outs result where
      l: "l = Split ?img # map (\<lambda>ch. Inpaint ch ?msk r ?f) (split_mat ?img) @ [Merge outs]"
      and all: "list_all2 (\<lambda>ch out. k_inpaint K ch ?msk r ?f = Some out) (split_mat ?img) outs"
      and mg: "merge_mat outs = Some result"
      and cb: "copy_back data rows (\<lambda>y. int_mul y rowStride) (int_mul cols channels) result = Inr data'"
      by blast
    note ip = inpainted_planes[OF K all, simplified view_content_shape]
    have sh1: "\<And>m. m \<in> set outs \<Longrightarrow> m_rows m = rows \<and> m_cols m = cols \<and> m_chans m = 1 \<and> wf_mat m"
      using ip(3) by simp
    have mp: "m_rows result = rows" "m_cols result = cols" "m_chans result = length outs" "wf_mat result"
      "m_depth result = m_depth (hd outs)"
      "\<And>p c. p < rows * cols \<Longrightarrow> c < length outs \<Longrightarrow> sample result p c = sample (outs ! c) p 0"
      using merge_planes[OF mg, of rows cols] sh1 by blast+
    have ne: "outs \<noteq> []" using ip(1) c by auto
    then have "hd outs \<in> set outs" by simp
    then have "m_depth (hd outs) = CV_16U" using ip(4) by simp
    then have o: "m_depth result \<noteq> CV_8U" "wf_mat result" "m_rows result = rows" "m_cols result = cols"
      "m_chans result = channels"
      using mp ip(1) by simp_all
    obtain data'' where cb': "copy_back data rows (\<lambda>y. int_mul y rowStride) (int_mul cols channels) result = Inr data''"
      and w: "\<forall>y<rows. \<forall>j<cols * channels.
                 data'' ! (y * rowStride + j) = word_of_int (m_data result ! (y * (cols * channels) + j))"
      using copy_back_valid[OF v o, of "int_mul cols channels"] by auto
    have "data'' = data'" using cb cb' by simp
    then have "data' ! (y * rowStride + (x * channels + c))
        = word_of_int (m_data result ! (y * (cols * channels) + (x * channels + c)))"
      using w y j by blast
    also have "\<dots> = word_of_int (sample result (y * cols + x) c)"
      unfolding sample_def o(5) pixel_offset by (rule refl)
    also have "\<dots> = word_of_int (sample (outs ! c) (y * cols + x) 0)"
      using mp(6)[OF p] c ip(1) by simp
    finally have d: "data' ! (y * rowStride + (x * channels + c)) = word_of_int (sample (outs ! c) (y * cols + x) 0)" .
    have "plane ?img c \<in> set (split_mat ?img)"
      using c by (simp add: split_mat_def)
    then have "Inpaint (plane ?img c) ?msk r ?f \<in> set l" unfolding l by simp
    then show ?thesis using ip(2)[OF c] d by blast
  qed
qed

lemma inpaint_mask_view:
  assumes "inpaint_bad_pixels_opencv K data rows cols channels rowStride mask' maskStride r method = (l, Inr data')"
  shows "view_ok (length mask') rows (cols * 1) maskStride"
proof (cases "channels = 1")
  case True
  then show ?thesis using inpaint_single_Inr assms by blast
next
  case False
  then show ?thesis using inpaint_multi_Inr[OF False assms] by blast
qed





subsection \<open>Normal return\<close>




















section \<open>The band-split pipeline\<close>

text \<open>
  C2. On a three-channel input the first stage of \<^verbatim>\<open>denoise_nlm_opencv\<close> is one
  call of the patch denoiser on the full-resolution view, with strengths \<open>{0, h, h}\<close>,
  patch window 3, search window 11 and the L1 norm. It is the first OpenCV call of the
  entry point, and the stage returns what the call returns.
\<close>

theorem nlm_primary_denoise:
  assumes "view_ok (length data) rows (cols * 3) rowStride"
  shows "fst (nlm_step1 K img h) = [FastNlMeansDenoising img [0, h, h] 3 11 NORM_L1]
     \<and> snd (nlm_step1 K img h) =
         (case k_denoise K img [0, h, h] 3 11 NORM_L1 of None \<Rightarrow> Inl CvException | Some out \<Rightarrow> Inr out)
     \<and> (\<exists>rest. fst (denoise_nlm_opencv K data rows cols 3 rowStride h) =
           FastNlMeansDenoising (view_content CV_16U data rows cols 3 rowStride) [0, h, h] 3 11 NORM_L1 # rest)"
  using assms
  by (simp add: denoise_nlm_opencv_def nlm_step1_def mat_view_def fastNlMeansDenoising_def cv_simps
      split: sum.splits option.splits)

theorem nlm_primary_denoise_witness:
  "hd (fst (denoise_nlm_opencv demo_kernels [1, 2, 3, 9] 1 1 3 4 10)) =
     FastNlMeansDenoising \<lparr>m_rows = 1, m_cols = 1, m_chans = 3, m_depth = CV_16U, m_data = [1, 2, 3]\<rparr>
       [0, 10, 10] 3 11 NORM_L1"
proof -
  have a: "view_ok (length [1, 2, 3, 9 :: u16]) 1 (1 * 3) 4"
    by (simp add: view_ok_def)
  show ?thesis
    using nlm_primary_denoise [OF a, of demo_kernels undefined 10]
    by (auto simp: view_content_def)
qed

text \<open>
  C7. The second stage of the three-channel path takes channel 2 of the stage-1 output
  out as a single-channel matrix, runs the 3x3 median filter on it, and puts the filtered
  plane back into channel 2 of the same matrix. Channels 0 and 1 of every pixel keep the
  values stage 1 gave them; channel 2 holds what the median filter returned. In
  \<^verbatim>\<open>denoise_nlm_opencv\<close> these three calls follow the calls of stage 1, they act on
  the matrix stage 1 returned, and the matrix they leave is the one stage 3 receives.
\<close>

theorem nlm_median_stage:
  assumes wf: "wf_mat out" and ch: "m_chans out = 3" and d: "m_depth out = CV_16U"
    and med: "k_median K (plane out 2) 3 = Some V'"
    and sh: "same_shape V' (plane out 2)"
  shows "\<exists>out'. nlm_step2 K out =
           ([MixChannels out (mat_new (mat_size out) CV_16U 1) 2 0,
             MedianBlur (plane out 2) 3,
             MixChannels V' out 0 2], Inr out')
         \<and> same_shape out' out \<and> wf_mat out'
         \<and> (\<forall>p < m_rows out * m_cols out.
               sample out' p 0 = sample out p 0 \<and> sample out' p 1 = sample out p 1
               \<and> sample out' p 2 = sample V' p 0)
         \<and> (view_ok (length data) rows (cols * 3) rowStride
              \<and> nlm_step1 K (view_content CV_16U data rows cols 3 rowStride) h = (l1, Inr out) \<longrightarrow>
             denoise_nlm_opencv K data rows cols 3 rowStride h =
               (l1 @ [MixChannels out (mat_new (mat_size out) CV_16U 1) 2 0,
                      MedianBlur (plane out 2) 3,
                      MixChannels V' out 0 2] @ fst (nlm_step3 K out' h),
                case snd (nlm_step3 K out' h) of
                  Inl e \<Rightarrow> Inl e
                | Inr final \<Rightarrow> copy_back data rows (\<lambda>y. int_mul y rowStride) (int_mul cols 3) final))"
proof -
  have e: "mix_channels out (mat_new (mat_size out) CV_16U 1) 2 0 = Some (plane out 2)"
    using d ch by (intro mix_extract) simp_all
  obtain out' where i: "mix_channels V' out 0 2 = Some out'"
    using sh ch d by (auto simp: mix_channels_def same_shape_def plane_def)
  have s2: "nlm_step2 K out =
           ([MixChannels out (mat_new (mat_size out) CV_16U 1) 2 0,
             MedianBlur (plane out 2) 3,
             MixChannels V' out 0 2], Inr out')"
    using e med i by (simp add: nlm_step2_def mixChannels_def medianBlur_def cv_bind_def cv_call_def)
  have px: "sample out' p 0 = sample out p 0 \<and> sample out' p 1 = sample out p 1
               \<and> sample out' p 2 = sample V' p 0" if "p < m_rows out * m_cols out" for p
    using mix_insert(3)[OF i wf that] ch by simp
  have tie: "denoise_nlm_opencv K data rows cols 3 rowStride h =
               (l1 @ [MixChannels out (mat_new (mat_size out) CV_16U 1) 2 0,
                      MedianBlur (plane out 2) 3,
                      MixChannels V' out 0 2] @ fst (nlm_step3 K out' h),
                case snd (nlm_step3 K out' h) of
                  Inl e \<Rightarrow> Inl e
                | Inr final \<Rightarrow> copy_back data rows (\<lambda>y. int_mul y rowStride) (int_mul cols 3) final)"
    if v: "view_ok (length data) rows (cols * 3) rowStride"
      and s1: "nlm_step1 K (view_content CV_16U data rows cols 3 rowStride) h = (l1, Inr out)"
    unfolding denoise_nlm_opencv_3[OF v] s1
    by (cases "nlm_step3 K out' h") (simp add: cv_bind_def cv_ret_def s2 split: sum.splits)
  show ?thesis
    apply (rule exI[of _ out'])
    using s2 mix_insert(1,2)[OF i wf] px tie by simp
qed

theorem nlm_median_stage_witness:
  "nlm_step2 (demo_kernels\<lparr>k_median := \<lambda>src k. Some (src\<lparr>m_data := map (\<lambda>v. v div 2) (m_data src)\<rparr>)\<rparr>)
     \<lparr>m_rows = 1, m_cols = 2, m_chans = 3, m_depth = CV_16U, m_data = [10, 20, 30, 40, 50, 60]\<rparr> =
   ([MixChannels \<lparr>m_rows = 1, m_cols = 2, m_chans = 3, m_depth = CV_16U, m_data = [10, 20, 30, 40, 50, 60]\<rparr>
                 \<lparr>m_rows = 1, m_cols = 2, m_chans = 1, m_depth = CV_16U, m_data = [0, 0]\<rparr> 2 0,
     MedianBlur \<lparr>m_rows = 1, m_cols = 2, m_chans = 1, m_depth = CV_16U, m_data = [30, 60]\<rparr> 3,
     MixChannels \<lparr>m_rows = 1, m_cols = 2, m_chans = 1, m_depth = CV_16U, m_data = [15, 30]\<rparr>
                 \<lparr>m_rows = 1, m_cols = 2, m_chans = 3, m_depth = CV_16U, m_data = [10, 20, 30, 40, 50, 60]\<rparr> 0 2],
    Inr \<lparr>m_rows = 1, m_cols = 2, m_chans = 3, m_depth = CV_16U, m_data = [10, 20, 15, 40, 50, 30]\<rparr>)
   \<and> denoise_nlm_opencv (demo_kernels\<lparr>k_median := \<lambda>src k. Some (src\<lparr>m_data := map (\<lambda>v. v div 2) (m_data src)\<rparr>)\<rparr>)
       [10, 20, 30, 40, 50, 60, 7] 1 2 3 7 5 =
   ([FastNlMeansDenoising \<lparr>m_rows = 1, m_cols = 2, m_chans = 3, m_depth = CV_16U, m_data = [10, 20, 30, 40, 50, 60]\<rparr> [0, 5, 5] 3 11 NORM_L1,
     MixChannels \<lparr>m_rows = 1, m_cols = 2, m_chans = 3, m_depth = CV_16U, m_data = [10, 20, 30, 40, 50, 60]\<rparr>
                 \<lparr>m_rows = 1, m_cols = 2, m_chans = 1, m_depth = CV_16U, m_data = [0, 0]\<rparr> 2 0,
     MedianBlur \<lparr>m_rows = 1, m_cols = 2, m_chans = 1, m_depth = CV_16U, m_data = [30, 60]\<rparr> 3,
     MixChannels \<lparr>m_rows = 1, m_cols = 2, m_chans = 1, m_depth = CV_16U, m_data = [15, 30]\<rparr>
                 \<lparr>m_rows = 1, m_cols = 2, m_chans = 3, m_depth = CV_16U, m_data = [10, 20, 30, 40, 50, 60]\<rparr> 0 2,
     Resize \<lparr>m_rows = 1, m_cols = 2, m_chans = 3, m_depth = CV_16U, m_data = [10, 20, 15, 40, 50, 30]\<rparr> (0, 0) (1 / 4) (1 / 4) INTER_AREA,
     FastNlMeansDenoising \<lparr>m_rows = 1, m_cols = 1, m_chans = 3, m_depth = CV_16U, m_data = [10, 20, 15]\<rparr> [0, 5 / 8, 5 / 4] 3 21 NORM_L1,
     Subtract \<lparr>m_rows = 1, m_cols = 1, m_chans = 3, m_depth = CV_16U, m_data = [10, 20, 15]\<rparr> \<lparr>m_rows = 1, m_cols = 1, m_chans = 3, m_depth = CV_16U, m_data = [10, 20, 15]\<rparr> CV_16S,
     Resize \<lparr>m_rows = 1, m_cols = 1, m_chans = 3, m_depth = CV_16S, m_data = [0, 0, 0]\<rparr> (2, 1) 0 0 INTER_CUBIC,
     Subtract \<lparr>m_rows = 1, m_cols = 2, m_chans = 3, m_depth = CV_16U, m_data = [10, 20, 15, 40, 50, 30]\<rparr> \<lparr>m_rows = 1, m_cols = 2, m_chans = 3, m_depth = CV_16S, m_data = [0, 0, 0, 0, 0, 0]\<rparr> CV_16U],
    Inr [10, 20, 15, 40, 50, 30, 7])"
proof -
  let ?K = "(demo_kernels\<lparr>k_median := \<lambda>src k. Some (src\<lparr>m_data := map (\<lambda>v. v div 2) (m_data src)\<rparr>)\<rparr>)"
  let ?out = "\<lparr>m_rows = 1, m_cols = 2, m_chans = 3, m_depth = CV_16U, m_data = [10, 20, 30, 40, 50, 60]\<rparr>"
  let ?V' = "\<lparr>m_rows = 1, m_cols = 2, m_chans = 1, m_depth = CV_16U, m_data = [15, 30]\<rparr>"
  have a: "wf_mat ?out" by (simp add: wf_mat_def)
  have b: "m_chans ?out = 3" by simp
  have c: "m_depth ?out = CV_16U" by simp
  have d: "k_median ?K (plane ?out 2) 3 = Some ?V'"
    by (simp add: eval_defs)
  have e: "same_shape ?V' (plane ?out 2)"
    by (simp add: same_shape_def plane_def)
  have v: "view_ok (length [10, 20, 30, 40, 50, 60, 7 :: u16]) 1 (2 * 3) 7"
    by (simp add: view_ok_def)
  have s1: "nlm_step1 ?K (view_content CV_16U [10, 20, 30, 40, 50, 60, 7 :: u16] 1 2 3 7) 5 =
      ([FastNlMeansDenoising ?out [0, 5, 5] 3 11 NORM_L1], Inr ?out)"
    by (simp add: eval_defs)
  have ev: ?thesis
    by (simp add: eval_defs replicate_2)
  show ?thesis
    using nlm_median_stage [OF a b c d e] v s1 by - (rule ev)
qed

text \<open>
  C1. The third stage of the three-channel path makes five calls in this order:
  \<^verbatim>\<open>cv::resize\<close> of the stage-2 result with both scale factors \<open>1/4\<close> and
  area interpolation; the patch denoiser on the reduced image with strengths
  \<open>{0, h/8, h/4}\<close>, patch window 3 and search window 21; \<^verbatim>\<open>cv::subtract\<close> of the
  reduced image and its denoise into a signed 16-bit residual; \<^verbatim>\<open>cv::resize\<close> of the
  residual to the size of the stage-2 result with bicubic interpolation; and
  \<^verbatim>\<open>cv::subtract\<close> of the stage-2 result and the enlarged residual, saturated to
  \<open>[0, 65535]\<close>. The last result is what the entry point writes back.
\<close>

theorem nlm_low_frequency_stage:
  assumes K: "kernel_contract K" and wf: "wf_mat out" and ne: "mat_size out \<noteq> (0, 0)"
    and sub: "k_resize K out (0, 0) (1 / 4) (1 / 4) INTER_AREA = Some sub"
    and dn: "k_denoise K sub [0, h / 8, h / 4] 3 21 NORM_L1 = Some sub_dn"
    and sr: "subtract_mat sub sub_dn CV_16S = Some sub_res"
    and res: "k_resize K sub_res (mat_size out) 0 0 INTER_CUBIC = Some res"
    and v: "view_ok (length data) rows (cols * 3) rowStride"
    and s1: "nlm_step1 K (view_content CV_16U data rows cols 3 rowStride) h = (l1, Inr out1)"
    and s2: "nlm_step2 K out1 = (l2, Inr out)"
  shows "\<exists>final.
      nlm_step3 K out h =
        ([Resize out (0, 0) (1 / 4) (1 / 4) INTER_AREA,
          FastNlMeansDenoising sub [0, h / 8, h / 4] 3 21 NORM_L1,
          Subtract sub sub_dn CV_16S,
          Resize sub_res (mat_size out) 0 0 INTER_CUBIC,
          Subtract out res CV_16U], Inr final)
      \<and> m_depth sub_res = CV_16S
      \<and> (\<forall>i < length (m_data sub_res).
            m_data sub_res ! i = max (- 32768) (min 32767 (m_data sub ! i - m_data sub_dn ! i)))
      \<and> m_rows final = m_rows out \<and> m_cols final = m_cols out \<and> m_chans final = m_chans out
      \<and> m_depth final = CV_16U \<and> wf_mat final
      \<and> (\<forall>i < length (m_data final).
            m_data final ! i = max 0 (min 65535 (m_data out ! i - m_data res ! i)))
      \<and> denoise_nlm_opencv K data rows cols 3 rowStride h =
          (l1 @ l2 @
           [Resize out (0, 0) (1 / 4) (1 / 4) INTER_AREA,
            FastNlMeansDenoising sub [0, h / 8, h / 4] 3 21 NORM_L1,
            Subtract sub sub_dn CV_16S,
            Resize sub_res (mat_size out) 0 0 INTER_CUBIC,
            Subtract out res CV_16U],
           copy_back data rows (\<lambda>y. int_mul y rowStride) (int_mul cols 3) final)"
proof -
  have c1: "m_chans sub = m_chans out"
    using K sub unfolding kernel_contract_def by blast
  have c2: "m_chans res = m_chans sub_res" "wf_mat res" "mat_size res = mat_size out"
    using K res ne unfolding kernel_contract_def by blast+
  have c3: "m_chans sub_res = m_chans sub" using subtract_mat_Some(3)[OF sr] .
  have "m_rows out = m_rows res" "m_cols out = m_cols res" "m_chans out = m_chans res"
    using c1 c2 c3 by (simp_all add: mat_size_def)
  then obtain final where f: "subtract_mat out res CV_16U = Some final"
    using subtract_mat_ok by blast
  note fs = subtract_mat_Some[OF f]
  have len: "length (m_data res) = length (m_data out)"
    using c2 wf \<open>m_rows out = m_rows res\<close> \<open>m_cols out = m_cols res\<close> \<open>m_chans out = m_chans res\<close>
    by (simp add: wf_mat_def)
  have s3: "nlm_step3 K out h =
        ([Resize out (0, 0) (1 / 4) (1 / 4) INTER_AREA,
          FastNlMeansDenoising sub [0, h / 8, h / 4] 3 21 NORM_L1,
          Subtract sub sub_dn CV_16S,
          Resize sub_res (mat_size out) 0 0 INTER_CUBIC,
          Subtract out res CV_16U], Inr final)"
    using sub dn sr res f
    by (simp add: nlm_step3_def resize_def fastNlMeansDenoising_def subtract_def cv_bind_def cv_call_def)
  have wff: "wf_mat final" using fs(1,2,3,5) len wf by (simp add: wf_mat_def)
  have r16: "m_data sub_res ! i = max (- 32768) (min 32767 (m_data sub ! i - m_data sub_dn ! i))"
    if "i < length (m_data sub_res)" for i
    using subtract_mat_Some(6)[OF sr that] by (simp add: saturate_def)
  have u16: "m_data final ! i = max 0 (min 65535 (m_data out ! i - m_data res ! i))"
    if "i < length (m_data final)" for i
    using fs(6)[OF that] by (simp add: saturate_def)
  have e: "denoise_nlm_opencv K data rows cols 3 rowStride h =
          (l1 @ l2 @
           [Resize out (0, 0) (1 / 4) (1 / 4) INTER_AREA,
            FastNlMeansDenoising sub [0, h / 8, h / 4] 3 21 NORM_L1,
            Subtract sub sub_dn CV_16S,
            Resize sub_res (mat_size out) 0 0 INTER_CUBIC,
            Subtract out res CV_16U],
           copy_back data rows (\<lambda>y. int_mul y rowStride) (int_mul cols 3) final)"
    unfolding denoise_nlm_opencv_3[OF v] using s1 s2 s3
    by (simp add: cv_bind_def cv_ret_def)
  show ?thesis
    apply (rule exI[of _ final])
    using s3 subtract_mat_Some(4)[OF sr] r16 fs(1,2,3,4) wff u16 e by simp
qed

theorem nlm_low_frequency_stage_witness:
  "denoise_nlm_opencv (demo_kernels\<lparr>k_denoise := \<lambda>src h t s n. Some (src\<lparr>m_data := map (\<lambda>v. v div 2) (m_data src)\<rparr>)\<rparr>)
     [100, 200, 300, 9] 1 1 3 4 10 =
   ([FastNlMeansDenoising \<lparr>m_rows = 1, m_cols = 1, m_chans = 3, m_depth = CV_16U, m_data = [100, 200, 300]\<rparr> [0, 10, 10] 3 11 NORM_L1] @
    [MixChannels \<lparr>m_rows = 1, m_cols = 1, m_chans = 3, m_depth = CV_16U, m_data = [50, 100, 150]\<rparr> \<lparr>m_rows = 1, m_cols = 1, m_chans = 1, m_depth = CV_16U, m_data = [0]\<rparr> 2 0, MedianBlur \<lparr>m_rows = 1, m_cols = 1, m_chans = 1, m_depth = CV_16U, m_data = [150]\<rparr> 3, MixChannels \<lparr>m_rows = 1, m_cols = 1, m_chans = 1, m_depth = CV_16U, m_data = [150]\<rparr> \<lparr>m_rows = 1, m_cols = 1, m_chans = 3, m_depth = CV_16U, m_data = [50, 100, 150]\<rparr> 0 2] @
    [Resize \<lparr>m_rows = 1, m_cols = 1, m_chans = 3, m_depth = CV_16U, m_data = [50, 100, 150]\<rparr> (0, 0) (1 / 4) (1 / 4) INTER_AREA,
      FastNlMeansDenoising \<lparr>m_rows = 1, m_cols = 1, m_chans = 3, m_depth = CV_16U, m_data = [50, 100, 150]\<rparr> [0, 10 / 8, 10 / 4] 3 21 NORM_L1,
      Subtract \<lparr>m_rows = 1, m_cols = 1, m_chans = 3, m_depth = CV_16U, m_data = [50, 100, 150]\<rparr> \<lparr>m_rows = 1, m_cols = 1, m_chans = 3, m_depth = CV_16U, m_data = [25, 50, 75]\<rparr> CV_16S,
      Resize \<lparr>m_rows = 1, m_cols = 1, m_chans = 3, m_depth = CV_16S, m_data = [25, 50, 75]\<rparr> (1, 1) 0 0 INTER_CUBIC,
      Subtract \<lparr>m_rows = 1, m_cols = 1, m_chans = 3, m_depth = CV_16U, m_data = [50, 100, 150]\<rparr> \<lparr>m_rows = 1, m_cols = 1, m_chans = 3, m_depth = CV_16S, m_data = [25, 50, 75]\<rparr> CV_16U],
    Inr [25, 50, 75, 9])"
proof -
  let ?K = "(demo_kernels\<lparr>k_denoise := \<lambda>src h t s n. Some (src\<lparr>m_data := map (\<lambda>v. v div 2) (m_data src)\<rparr>)\<rparr>)"
  have K: "kernel_contract ?K"
    unfolding kernel_contract_def demo_kernels_def
    by (auto simp: same_shape_def wf_mat_def nearest_def mat_size_def Let_def split: if_splits)
  have wf: "wf_mat \<lparr>m_rows = 1, m_cols = 1, m_chans = 3, m_depth = CV_16U, m_data = [50, 100, 150]\<rparr>" by (simp add: wf_mat_def)
  have ne: "mat_size \<lparr>m_rows = 1, m_cols = 1, m_chans = 3, m_depth = CV_16U, m_data = [50, 100, 150]\<rparr> \<noteq> (0, 0)" by (simp add: mat_size_def)
  have sub: "k_resize ?K \<lparr>m_rows = 1, m_cols = 1, m_chans = 3, m_depth = CV_16U, m_data = [50, 100, 150]\<rparr> (0, 0) (1 / 4) (1 / 4) INTER_AREA = Some \<lparr>m_rows = 1, m_cols = 1, m_chans = 3, m_depth = CV_16U, m_data = [50, 100, 150]\<rparr>"
    by (simp add: eval_defs)
  have dn: "k_denoise ?K \<lparr>m_rows = 1, m_cols = 1, m_chans = 3, m_depth = CV_16U, m_data = [50, 100, 150]\<rparr> [0, 10 / 8, 10 / 4] 3 21 NORM_L1 = Some \<lparr>m_rows = 1, m_cols = 1, m_chans = 3, m_depth = CV_16U, m_data = [25, 50, 75]\<rparr>"
    by (simp add: eval_defs)
  have sr: "subtract_mat \<lparr>m_rows = 1, m_cols = 1, m_chans = 3, m_depth = CV_16U, m_data = [50, 100, 150]\<rparr> \<lparr>m_rows = 1, m_cols = 1, m_chans = 3, m_depth = CV_16U, m_data = [25, 50, 75]\<rparr> CV_16S = Some \<lparr>m_rows = 1, m_cols = 1, m_chans = 3, m_depth = CV_16S, m_data = [25, 50, 75]\<rparr>"
    by (simp add: eval_defs)
  have res: "k_resize ?K \<lparr>m_rows = 1, m_cols = 1, m_chans = 3, m_depth = CV_16S, m_data = [25, 50, 75]\<rparr> (mat_size \<lparr>m_rows = 1, m_cols = 1, m_chans = 3, m_depth = CV_16U, m_data = [50, 100, 150]\<rparr>) 0 0 INTER_CUBIC = Some \<lparr>m_rows = 1, m_cols = 1, m_chans = 3, m_depth = CV_16S, m_data = [25, 50, 75]\<rparr>"
    by (simp add: eval_defs)
  have v: "view_ok (length [100, 200, 300, 9 :: u16]) 1 (1 * 3) 4"
    by (simp add: view_ok_def)
  have s1: "nlm_step1 ?K (view_content CV_16U [100, 200, 300, 9 :: u16] 1 1 3 4) 10 =
      ([FastNlMeansDenoising \<lparr>m_rows = 1, m_cols = 1, m_chans = 3, m_depth = CV_16U, m_data = [100, 200, 300]\<rparr> [0, 10, 10] 3 11 NORM_L1], Inr \<lparr>m_rows = 1, m_cols = 1, m_chans = 3, m_depth = CV_16U, m_data = [50, 100, 150]\<rparr>)"
    by (simp add: eval_defs)
  have s2: "nlm_step2 ?K \<lparr>m_rows = 1, m_cols = 1, m_chans = 3, m_depth = CV_16U, m_data = [50, 100, 150]\<rparr> =
      ([MixChannels \<lparr>m_rows = 1, m_cols = 1, m_chans = 3, m_depth = CV_16U, m_data = [50, 100, 150]\<rparr> \<lparr>m_rows = 1, m_cols = 1, m_chans = 1, m_depth = CV_16U, m_data = [0]\<rparr> 2 0, MedianBlur \<lparr>m_rows = 1, m_cols = 1, m_chans = 1, m_depth = CV_16U, m_data = [150]\<rparr> 3, MixChannels \<lparr>m_rows = 1, m_cols = 1, m_chans = 1, m_depth = CV_16U, m_data = [150]\<rparr> \<lparr>m_rows = 1, m_cols = 1, m_chans = 3, m_depth = CV_16U, m_data = [50, 100, 150]\<rparr> 0 2], Inr \<lparr>m_rows = 1, m_cols = 1, m_chans = 3, m_depth = CV_16U, m_data = [50, 100, 150]\<rparr>)"
    by (simp add: eval_defs)
  have ev: ?thesis
    by (simp add: eval_defs)
  show ?thesis
    using nlm_low_frequency_stage [OF K wf ne sub dn sr res v s1 s2] by - (rule ev)
qed

section \<open>The upscaler\<close>

text \<open>
  C8. \<^verbatim>\<open>bicubic_upscale_opencv\<close> makes one call: \<^verbatim>\<open>cv::resize\<close> with bicubic
  interpolation from the source view to the size the destination declares, with both
  scale factors passed as zero, so the destination's dimensions alone decide the
  output size. The source is read through its own stride (only its logical content
  reaches the resampler) and the result is stored through the destination's stride:
  row \<open>y\<close> of the result lands at \<open>y * dstStride\<close>, and the samples between the rows
  keep their values.
\<close>

theorem bicubic_upscale:
  assumes src: "view_ok (length src) srcRows (srcCols * channels) srcStride"
    and dst: "dstCols * channels \<le> dstStride" "view_ok (length dst) dstRows (dstCols * channels) dstStride"
    and K: "kernel_contract K"
    and r: "k_resize K (view_content CV_16U src srcRows srcCols channels srcStride) (dstCols, dstRows) 0 0 INTER_CUBIC = Some r"
  shows "\<exists>dst'. bicubic_upscale_opencv K src srcRows srcCols channels srcStride dst dstRows dstCols dstStride =
           ([Resize (view_content CV_16U src srcRows srcCols channels srcStride) (dstCols, dstRows) 0 0 INTER_CUBIC],
            Inr dst')
         \<and> length dst' = length dst
         \<and> (\<forall>y<dstRows. \<forall>j<dstCols * channels.
               dst' ! (y * dstStride + j) = word_of_int (m_data r ! (y * (dstCols * channels) + j)))
         \<and> (\<forall>i. \<not> in_view dstRows (dstCols * channels) dstStride i \<longrightarrow> dst' ! i = dst ! i)"
proof -
  let ?srcMat = "view_content CV_16U src srcRows srcCols channels srcStride"
  let ?off = "\<lambda>y. Inr (y * dstStride) :: fault + nat"
  have eq: "bicubic_upscale_opencv K src srcRows srcCols channels srcStride dst dstRows dstCols dstStride
      = ([Resize ?srcMat (dstCols, dstRows) 0 0 INTER_CUBIC],
         copy_back dst dstRows ?off (Inr (dstCols * channels)) r)"
    using src r by (simp add: bicubic_upscale_opencv_def mat_view_def resize_def cv_bind_def cv_ret_def cv_call_def)
  have c: "m_chans r = channels" "m_depth r = CV_16U" "wf_mat r"
    "(dstCols, dstRows) \<noteq> (0, 0) \<longrightarrow> mat_size r = (dstCols, dstRows)"
    using K r unfolding kernel_contract_def by (fastforce simp: view_content_def)+
  show ?thesis
  proof (cases "dstRows = 0")
    case True
    then show ?thesis using eq c by (simp add: copy_back_def in_view_def)
  next
    case False
    then have sz: "m_rows r = dstRows" "m_cols r = dstCols" using c(4) by (auto simp: mat_size_def)
    obtain dst' where d: "copy_back dst dstRows ?off (Inr (dstCols * channels)) r = Inr dst'"
      and w: "\<forall>y<dstRows. \<forall>j<dstCols * channels.
               dst' ! (y * dstStride + j) = word_of_int (m_data r ! (y * (dstCols * channels) + j))"
      using copy_back_written[of r dstRows "dstCols * channels" dstStride dst ?off] c sz dst by auto
    have "dst' ! i = dst ! i" if "\<not> in_view dstRows (dstCols * channels) dstStride i" for i
      using copy_back_padding[OF d _ _ dst(1) that] by simp
    then show ?thesis using eq d w copy_back_length[OF d] by simp
  qed
qed

theorem bicubic_upscale_witness:
  "bicubic_upscale_opencv demo_kernels [1, 2, 9] 1 2 1 3 [0, 0, 0, 7, 0, 0, 0, 7] 2 3 4 =
     ([Resize \<lparr>m_rows = 1, m_cols = 2, m_chans = 1, m_depth = CV_16U, m_data = [1, 2]\<rparr>
         (3, 2) 0 0 INTER_CUBIC],
      Inr [1, 1, 2, 7, 1, 1, 2, 7])"
proof -
  have a: "view_ok (length [1, 2, 9 :: u16]) 1 (2 * 1) 3"
    by (simp add: view_ok_def)
  have b: "3 * 1 \<le> (4 :: nat)"
    by simp
  have c: "view_ok (length [0, 0, 0, 7, 0, 0, 0, 7 :: u16]) 2 (3 * 1) 4"
    by (simp add: view_ok_def)
  have r: "k_resize demo_kernels (view_content CV_16U [1, 2, 9 :: u16] 1 2 1 3) (3, 2) 0 0 INTER_CUBIC =
      Some \<lparr>m_rows = 2, m_cols = 3, m_chans = 1, m_depth = CV_16U, m_data = [1, 1, 2, 1, 1, 2]\<rparr>"
    by (simp add: eval_defs)
  have ev: "bicubic_upscale_opencv demo_kernels [1, 2, 9] 1 2 1 3 [0, 0, 0, 7, 0, 0, 0, 7] 2 3 4 =
     ([Resize \<lparr>m_rows = 1, m_cols = 2, m_chans = 1, m_depth = CV_16U, m_data = [1, 2]\<rparr>
         (3, 2) 0 0 INTER_CUBIC],
      Inr [1, 1, 2, 7, 1, 1, 2, 7])"
    by (simp add: eval_defs)
  show ?thesis
    using bicubic_upscale [OF a b c demo_kernels_contract r] by - (rule ev)
qed

section \<open>Zero strength\<close>



section \<open>Defect repair\<close>

text \<open>
  C4. On an image that is not single-channel \<^verbatim>\<open>inpaint_bad_pixels_opencv\<close> calls
  \<^verbatim>\<open>cv::split\<close> once, then \<^verbatim>\<open>cv::inpaint\<close> once per channel, in channel order, each
  on a single-channel plane and each against the same mask matrix (there is no mask per
  channel), then \<^verbatim>\<open>cv::merge\<close> once on the inpainted planes. The merged matrix has the
  channels of the input, channel \<open>c\<close> of every pixel being the inpainted plane \<open>c\<close>, and
  it is what the write-back loop copies into the caller's buffer.
\<close>

theorem inpaint_channelwise:
  assumes K: "kernel_contract K" and ch: "channels \<noteq> 1"
    and res: "inpaint_bad_pixels_opencv K data rows cols channels rowStride mask' maskStride r method = (l, Inr data')"
  shows "\<exists>outs result.
        l = Split (view_content CV_16U data rows cols channels rowStride)
            # map (\<lambda>ch. Inpaint ch (view_content CV_8U mask' rows cols 1 maskStride) r (inpaintMethod method))
                  (map (plane (view_content CV_16U data rows cols channels rowStride)) [0..<channels])
            @ [Merge outs]
      \<and> length outs = channels
      \<and> (\<forall>c < channels.
            k_inpaint K (plane (view_content CV_16U data rows cols channels rowStride) c)
              (view_content CV_8U mask' rows cols 1 maskStride) r (inpaintMethod method) = Some (outs ! c)
            \<and> m_chans (plane (view_content CV_16U data rows cols channels rowStride) c) = 1
            \<and> m_chans (outs ! c) = 1)
      \<and> merge_mat outs = Some result
      \<and> m_rows result = rows \<and> m_cols result = cols \<and> m_chans result = channels
      \<and> (\<forall>p < rows * cols. \<forall>c < channels. sample result p c = sample (outs ! c) p 0)
      \<and> copy_back data rows (\<lambda>y. int_mul y rowStride) (int_mul cols channels) result = Inr data'
      \<and> (\<forall>c \<in> set l. \<forall>src msk rad f. c = Inpaint src msk rad f \<longrightarrow>
            msk = view_content CV_8U mask' rows cols 1 maskStride)"
proof -
  let ?img = "view_content CV_16U data rows cols channels rowStride"
  let ?msk = "view_content CV_8U mask' rows cols 1 maskStride"
  let ?f = "inpaintMethod method"
  from inpaint_multi_Inr[OF ch res] obtain outs result where
    l: "l = Split ?img # map (\<lambda>ch. Inpaint ch ?msk r ?f) (split_mat ?img) @ [Merge outs]"
    and all: "list_all2 (\<lambda>ch out. k_inpaint K ch ?msk r ?f = Some out) (split_mat ?img) outs"
    and mg: "merge_mat outs = Some result"
    and cb: "copy_back data rows (\<lambda>y. int_mul y rowStride) (int_mul cols channels) result = Inr data'"
    by blast
  note ip = inpainted_planes[OF K all, simplified view_content_shape]
  have sh1: "\<And>m. m \<in> set outs \<Longrightarrow> m_rows m = rows \<and> m_cols m = cols \<and> m_chans m = 1 \<and> wf_mat m"
    using ip(3) by simp
  have mp: "m_rows result = rows" "m_cols result = cols" "m_chans result = length outs"
    "\<And>p c. p < rows * cols \<Longrightarrow> c < length outs \<Longrightarrow> sample result p c = sample (outs ! c) p 0"
    using merge_planes[OF mg, of rows cols] sh1 by blast+
  have one: "m_chans (outs ! c) = 1" if "c < channels" for c
    using sh1[of "outs ! c"] that ip(1) by simp
  have msk: "msk = ?msk" if "Inpaint src msk rad f \<in> set l" for src msk rad f
    using that unfolding l by auto
  have l': "l = Split ?img # map (\<lambda>ch. Inpaint ch ?msk r ?f) (map (plane ?img) [0..<channels]) @ [Merge outs]"
    unfolding l split_mat_def by simp
  show ?thesis
    apply (rule exI[of _ outs], rule exI[of _ result])
    using l' ip(1,2) one mg mp cb msk by (simp add: ip(1))
qed

theorem inpaint_channelwise_witness:
  "inpaint_bad_pixels_opencv demo_kernels [1, 2, 3, 9, 4, 5, 6, 8] 2 1 3 4 [0, 7, 1, 7] 2 3 0 =
     ([Split \<lparr>m_rows = 2, m_cols = 1, m_chans = 3, m_depth = CV_16U, m_data = [1, 2, 3, 4, 5, 6]\<rparr>,
      Inpaint \<lparr>m_rows = 2, m_cols = 1, m_chans = 1, m_depth = CV_16U, m_data = [1, 4]\<rparr> \<lparr>m_rows = 2, m_cols = 1, m_chans = 1, m_depth = CV_8U, m_data = [0, 1]\<rparr> 3 INPAINT_NS,
      Inpaint \<lparr>m_rows = 2, m_cols = 1, m_chans = 1, m_depth = CV_16U, m_data = [2, 5]\<rparr> \<lparr>m_rows = 2, m_cols = 1, m_chans = 1, m_depth = CV_8U, m_data = [0, 1]\<rparr> 3 INPAINT_NS,
      Inpaint \<lparr>m_rows = 2, m_cols = 1, m_chans = 1, m_depth = CV_16U, m_data = [3, 6]\<rparr> \<lparr>m_rows = 2, m_cols = 1, m_chans = 1, m_depth = CV_8U, m_data = [0, 1]\<rparr> 3 INPAINT_NS,
      Merge [\<lparr>m_rows = 2, m_cols = 1, m_chans = 1, m_depth = CV_16U, m_data = [1, 0]\<rparr>,
             \<lparr>m_rows = 2, m_cols = 1, m_chans = 1, m_depth = CV_16U, m_data = [2, 0]\<rparr>,
             \<lparr>m_rows = 2, m_cols = 1, m_chans = 1, m_depth = CV_16U, m_data = [3, 0]\<rparr>]],
      Inr [1, 2, 3, 9, 0, 0, 0, 8])"
proof -
  have ch: "(3 :: nat) \<noteq> 1" by simp
  have ev: ?thesis
    by (simp add: eval_defs)
  show ?thesis
    using inpaint_channelwise [OF demo_kernels_contract ch ev] by - (rule ev)
qed

text \<open>
  C5. After a repair that returns, a pixel whose mask sample is zero holds in every
  channel exactly the sample it held before, and every pixel of the image, the masked
  ones in particular, holds in channel \<open>c\<close> the value the inpainter returned for that
  pixel of plane \<open>c\<close>: no masked pixel is left with a value the inpainter did not
  produce. That the inpainter itself leaves unmasked pixels alone is OpenCV's contract
  and a premise here; the adapter adds nothing to it and takes nothing away.
\<close>

theorem repair_frame_and_total:
  assumes v: "valid_view (length data) rows cols channels rowStride"
    and K: "kernel_contract K" and U: "inpaint_keeps_unmasked K"
    and res: "inpaint_bad_pixels_opencv K data rows cols channels rowStride mask' maskStride r method = (l, Inr data')"
    and y: "y < rows" and x: "x < cols" and c: "c < channels"
  shows "(mask' ! (y * maskStride + x) = 0 \<longrightarrow>
            data' ! (y * rowStride + (x * channels + c)) = data ! (y * rowStride + (x * channels + c)))
       \<and> (\<exists>out. k_inpaint K (plane (view_content CV_16U data rows cols channels rowStride) c)
                   (view_content CV_8U mask' rows cols 1 maskStride) r (inpaintMethod method) = Some out
             \<and> Inpaint (plane (view_content CV_16U data rows cols channels rowStride) c)
                   (view_content CV_8U mask' rows cols 1 maskStride) r (inpaintMethod method) \<in> set l
             \<and> data' ! (y * rowStride + (x * channels + c)) = word_of_int (sample out (y * cols + x) 0))"
proof -
  let ?img = "view_content CV_16U data rows cols channels rowStride"
  let ?msk = "view_content CV_8U mask' rows cols 1 maskStride"
  let ?i = "y * rowStride + (x * channels + c)"
  obtain out where k: "k_inpaint K (plane ?img c) ?msk r (inpaintMethod method) = Some out"
    and l: "Inpaint (plane ?img c) ?msk r (inpaintMethod method) \<in> set l"
    and d: "data' ! ?i = word_of_int (sample out (y * cols + x) 0)"
    using inpaint_pixels[OF v K res y x c] by blast
  have p: "y * cols + x < rows * cols" by (rule pixel_index(1)[OF y x])
  have "data' ! ?i = data ! ?i" if m: "mask' ! (y * maskStride + x) = 0"
  proof -
    have "sample ?msk (y * cols + x) 0 = uint (mask' ! (y * maskStride + (x * 1 + 0)))"
      by (rule view_sample[OF inpaint_mask_view[OF res] y x]) simp
    then have m0: "sample ?msk (y * cols + x) 0 = 0" using m by simp
    have "sample out (y * cols + x) 0 = sample (plane ?img c) (y * cols + x) 0"
      using U k wf_plane[of ?img c] p m0 unfolding inpaint_keeps_unmasked_def
      by (metis plane_shape(1,2,3) view_content_shape(1,2) zero_less_one)
    also have "\<dots> = sample ?img (y * cols + x) c"
      using plane_nth[of "y * cols + x" ?img c] p by (simp add: sample_def)
    also have "\<dots> = uint (data ! ?i)"
      by (rule view_sample[OF valid_view_ok[OF v] y x c])
    finally show ?thesis using d by simp
  qed
  then show ?thesis using k l d by blast
qed

theorem repair_frame_and_total_witness:
  "snd (inpaint_bad_pixels_opencv demo_kernels [1, 2, 3, 9, 4, 5, 6, 8] 2 1 3 4 [0, 7, 1, 7] 2 3 0) = Inr [1, 2, 3, 9, 0, 0, 0, 8]"
proof -
  have v: "valid_view (length [1, 2, 3, 9, 4, 5, 6, 8 :: u16]) 2 1 3 4"
    by (simp add: valid_view_def view_ok_def INT_MAX_def)
  have ev: "inpaint_bad_pixels_opencv demo_kernels [1, 2, 3, 9, 4, 5, 6, 8] 2 1 3 4 [0, 7, 1, 7] 2 3 0 =
     (fst (inpaint_bad_pixels_opencv demo_kernels [1, 2, 3, 9, 4, 5, 6, 8] 2 1 3 4 [0, 7, 1, 7] 2 3 0), Inr [1, 2, 3, 9, 0, 0, 0, 8])"
    by (simp add: eval_defs)
  have y: "(0 :: nat) < 2" and x: "(0 :: nat) < 1" and c: "(1 :: nat) < 3"
    by simp_all
  have s: ?thesis
    by (simp add: eval_defs)
  show ?thesis
    using repair_frame_and_total [OF v demo_kernels_contract demo_kernels_keep_unmasked ev y x c]
    by - (rule s)
qed

section \<open>Strided access\<close>



end
